theory Spec2Isabelle
  imports Main "HOL-Library.Word" "HOL-Library.Sublist"
begin

unbundle bit_operations_syntax

section \<open>Bytes, errors and the struct formats\<close>

text \<open>
  The program is a Python script. Its integers are unbounded and never negative on the
  pack side, so they are modelled as \<open>nat\<close>; the one subtraction of the unpack side
  is done in \<open>int\<close>. A byte is an \<open>8 word\<close>, a file's content a list of bytes, a
  Python string a \<open>string\<close>. Every exception the script can raise is a value of
  \<open>error\<close>, and a function that can raise returns \<open>error + 'a\<close>.
\<close>

type_synonym byte = "8 word"

datatype error =
    AssertionError
  | ValueError
  | StructError
  | KeyError
  | IndexError
  | OSError
  | UnicodeEncodeError

definition bind_r :: "error + 'a \<Rightarrow> ('a \<Rightarrow> error + 'b) \<Rightarrow> error + 'b" where
  "bind_r m f = (case m of Inl e \<Rightarrow> Inl e | Inr x \<Rightarrow> f x)"

text \<open>\<open>struct.pack\<close> with the formats the script uses: little endian, fixed width, and
  \<open>struct.error\<close> when the value does not fit.\<close>

definition le_bytes :: "nat \<Rightarrow> nat \<Rightarrow> byte list" where
  "le_bytes k v = map (\<lambda>i. of_nat (v div 256 ^ i)) [0..<k]"

definition struct_pack_B :: "nat \<Rightarrow> error + byte list" where
  "struct_pack_B v = (if v < 2 ^ 8 then Inr (le_bytes 1 v) else Inl StructError)"

definition struct_pack_H :: "nat \<Rightarrow> error + byte list" where
  "struct_pack_H v = (if v < 2 ^ 16 then Inr (le_bytes 2 v) else Inl StructError)"

definition struct_pack_I :: "nat \<Rightarrow> error + byte list" where
  "struct_pack_I v = (if v < 2 ^ 32 then Inr (le_bytes 4 v) else Inl StructError)"

definition struct_pack_h :: "nat \<Rightarrow> error + byte list" where
  "struct_pack_h v = (if v < 2 ^ 15 then Inr (le_bytes 2 v) else Inl StructError)"

section \<open>strcode\<close>

text \<open>
  \<open>strcode\<close> folds over the bytes of \<open>string.encode("EUC-JP")\<close>. The codec is
  Python's, not the script's: it is the parameter \<open>enc\<close>, \<open>None\<close> where Python
  raises \<open>UnicodeEncodeError\<close>.
\<close>

definition strcode_step :: "nat \<Rightarrow> byte \<Rightarrow> nat" where
  "strcode_step code s =
     (((drop_bit 11 code OR push_bit 5 code) AND 0xffff) + unat s) AND 0xffff"

definition strcode_bytes :: "byte list \<Rightarrow> nat" where
  "strcode_bytes bs = foldl strcode_step 0 bs"

definition strcode :: "(string \<Rightarrow> byte list option) \<Rightarrow> string \<Rightarrow> error + nat" where
  "strcode enc s =
     (case enc s of None \<Rightarrow> Inl UnicodeEncodeError | Some bs \<Rightarrow> Inr (strcode_bytes bs))"

text \<open>The checksum as the specification words it, on a 16-bit accumulator.\<close>

definition checksum_step :: "16 word \<Rightarrow> byte \<Rightarrow> 16 word" where
  "checksum_step acc b = (((drop_bit 11 acc OR push_bit 5 acc) AND 0xFFFF) + ucast b) AND 0xFFFF"

definition checksum :: "byte list \<Rightarrow> 16 word" where
  "checksum bs = foldl checksum_step 0 bs"

section \<open>The file object behind BufWriter and BufReader\<close>

text \<open>
  Both classes wrap a binary file object: its content and its position. A write at the
  position overwrites what is there and extends the file; a write past the end fills
  the gap with zeros; a write of no bytes changes nothing; \<open>seek\<close> alone never
  extends the file.
\<close>

record pyfile =
  content :: "byte list"
  pos :: nat

definition file_write :: "byte list \<Rightarrow> pyfile \<Rightarrow> pyfile" where
  "file_write bs f =
     (if bs = [] then f
      else \<lparr>content = take (pos f) (content f @ replicate (pos f - length (content f)) 0)
                        @ bs @ drop (pos f + length bs) (content f),
            pos = pos f + length bs\<rparr>)"

definition file_seek :: "nat \<Rightarrow> pyfile \<Rightarrow> pyfile" where
  "file_seek off f = f\<lparr>pos := off\<rparr>"

text \<open>\<open>file.read(size)\<close> for \<open>size \<ge> 0\<close>: what is left, up to \<open>size\<close> bytes.\<close>

definition file_read :: "nat \<Rightarrow> pyfile \<Rightarrow> byte list \<times> pyfile" where
  "file_read n f =
     (let raw = take n (drop (pos f) (content f))
      in (raw, f\<lparr>pos := pos f + length raw\<rparr>))"

subsection \<open>BufWriter\<close>

definition bw_write :: "byte list \<Rightarrow> pyfile \<Rightarrow> pyfile" where
  "bw_write data buf = file_write data buf"

definition bw_align :: "nat \<Rightarrow> pyfile \<Rightarrow> pyfile" where
  "bw_align n buf =
     (let cur = pos buf; aligned = ((cur + (n - 1)) div n) * n
      in bw_write (replicate (aligned - cur) 0) buf)"

definition bw_pack_H :: "nat \<Rightarrow> pyfile \<Rightarrow> error + pyfile" where
  "bw_pack_H v buf = bind_r (struct_pack_H v) (\<lambda>raw. Inr (file_write raw buf))"

definition bw_pack_B :: "nat \<Rightarrow> pyfile \<Rightarrow> error + pyfile" where
  "bw_pack_B v buf = bind_r (struct_pack_B v) (\<lambda>raw. Inr (file_write raw buf))"

definition bw_pack_I :: "nat \<Rightarrow> pyfile \<Rightarrow> error + pyfile" where
  "bw_pack_I v buf = bind_r (struct_pack_I v) (\<lambda>raw. Inr (file_write raw buf))"

definition bw_pack_h :: "nat \<Rightarrow> pyfile \<Rightarrow> error + pyfile" where
  "bw_pack_h v buf = bind_r (struct_pack_h v) (\<lambda>raw. Inr (file_write raw buf))"

subsection \<open>BufReader\<close>

text \<open>\<open>struct.unpack\<close> raises \<open>struct.error\<close> on a short read.\<close>

definition le_nat :: "byte list \<Rightarrow> nat" where
  "le_nat bs = foldr (\<lambda>b acc. unat b + 256 * acc) bs 0"

definition br_unpack :: "nat \<Rightarrow> pyfile \<Rightarrow> error + nat \<times> pyfile" where
  "br_unpack k buf =
     (let (raw, buf') = file_read k buf
      in if length raw = k then Inr (le_nat raw, buf') else Inl StructError)"

definition br_unpack_h :: "pyfile \<Rightarrow> error + int \<times> pyfile" where
  "br_unpack_h buf =
     bind_r (br_unpack 2 buf) (\<lambda>(v, buf'). Inr (sint (of_nat v :: 16 word), buf'))"

text \<open>\<open>buf.read(size)\<close> with a computed size: a buffered reader reads to the end of
  the file for \<open>-1\<close> and raises \<open>ValueError\<close> for any other negative size.\<close>

definition br_read :: "int \<Rightarrow> pyfile \<Rightarrow> error + byte list \<times> pyfile" where
  "br_read n buf =
     (if 0 \<le> n then Inr (file_read (nat n) buf)
      else if n = - 1 then Inr (file_read (length (content buf)) buf)
      else Inl ValueError)"

definition br_align :: "nat \<Rightarrow> pyfile \<Rightarrow> pyfile" where
  "br_align n buf =
     (let cur = pos buf; aligned = ((cur + (n - 1)) div n) * n
      in snd (file_read (aligned - cur) buf))"

text \<open>A seek to a negative offset is an \<open>OSError\<close>.\<close>

definition br_seek :: "int \<Rightarrow> pyfile \<Rightarrow> error + pyfile" where
  "br_seek off buf = (if off < 0 then Inl OSError else Inr (file_seek (nat off) buf))"

section \<open>Packing one stage\<close>

text \<open>
  A stage directory is its \<open>data.cnf\<close> (the lines \<open>readlines\<close> returns) and its
  asset files by name. A \<open>char\<close> is one of 256 code points; the strings of the model
  are the strings of the script whose code points all lie below 256.
\<close>

record stage_dir =
  cnf :: "string list"
  assets :: "string \<Rightarrow> byte list option"

text \<open>\<open>str.strip()\<close>: the code points below 256 for which \<open>str.isspace\<close> holds.\<close>

definition isspace :: "char \<Rightarrow> bool" where
  "isspace c = ((of_char c :: nat) \<in> {9, 10, 11, 12, 13, 28, 29, 30, 31, 32, 133, 160})"

definition strip :: "string \<Rightarrow> string" where
  "strip s = rev (dropWhile isspace (rev (dropWhile isspace s)))"

text \<open>\<open>str.split(sep)\<close> for a separator of one character.\<close>

fun split_on :: "char \<Rightarrow> string \<Rightarrow> string list" where
  "split_on sep [] = [[]]"
| "split_on sep (c # cs) =
     (if c = sep then [] # split_on sep cs
      else (case split_on sep cs of [] \<Rightarrow> [[c]] | p # ps \<Rightarrow> (c # p) # ps))"

text \<open>An element of \<open>files\<close>: \<open>(name, ext, section, size)\<close>.\<close>

type_synonym entry = "string \<times> string \<times> char \<times> nat"

definition entry_section :: "entry \<Rightarrow> char" where
  "entry_section e = fst (snd (snd e))"

text \<open>Lines 74 to 101: the loop over the lines of \<open>data.cnf\<close>. Each \<open>assert\<close> is an
  \<open>AssertionError\<close>, a line that does not split into two parts at its dots a
  \<open>ValueError\<close>, a file that is not there an \<open>OSError\<close>.\<close>

fun read_config ::
  "(string \<Rightarrow> byte list option) \<Rightarrow> string list \<Rightarrow> char option \<Rightarrow> entry list \<Rightarrow> error + entry list"
where
  "read_config fs [] section files = Inr files"
| "read_config fs (l # ls) section files =
     (let line = strip l in
      if line = ''.resident'' then
        (if section = None then read_config fs ls (Some CHR ''r'') files
         else Inl AssertionError)
      else if line = ''.nocache'' then
        (if section = None \<or> section = Some CHR ''r'' then read_config fs ls (Some CHR ''n'') files
         else Inl AssertionError)
      else if line = ''.cache'' then
        (if section = Some CHR ''r'' \<or> section = Some CHR ''n''
         then read_config fs ls (Some CHR ''c'') files
         else Inl AssertionError)
      else if line = ''.sound'' then
        (if section = Some CHR ''c'' then read_config fs ls (Some CHR ''s'') files
         else Inl AssertionError)
      else
        (case section of
           None \<Rightarrow> Inl AssertionError
         | Some sec \<Rightarrow>
            (case split_on CHR ''.'' line of
               [name, ext] \<Rightarrow>
                 (case fs line of
                    None \<Rightarrow> Inl OSError
                  | Some bytes \<Rightarrow> read_config fs ls section (files @ [(name, ext, sec, length bytes)]))
             | _ \<Rightarrow> Inl ValueError)))"

text \<open>Lines 120 to 136: the record of one entry.\<close>

definition pack_entry ::
  "(string \<Rightarrow> byte list option) \<Rightarrow> entry \<Rightarrow> bool \<Rightarrow> nat \<Rightarrow> pyfile \<Rightarrow> error + pyfile"
where
  "pack_entry enc e in_cache cache_size buf =
     (case e of (name, ext, section, fsize) \<Rightarrow>
        bind_r (if ext = ''dar'' then bw_pack_H 0x0000 buf
                else bind_r (strcode enc name) (\<lambda>code. bw_pack_H code buf)) (\<lambda>buf.
        bind_r (if ext = ''bin'' then bw_pack_B (of_char CHR ''s'') buf
                else bw_pack_B (of_char section) buf) (\<lambda>buf.
        bind_r (case ext of [] \<Rightarrow> Inl IndexError | c # _ \<Rightarrow> bw_pack_B (of_char c) buf) (\<lambda>buf.
        if in_cache then bw_pack_I cache_size buf else bw_pack_I fsize buf))))"

text \<open>Lines 141 to 144: the trailer record of a cache run.\<close>

definition pack_trailer :: "nat \<Rightarrow> pyfile \<Rightarrow> error + pyfile" where
  "pack_trailer cache_size buf =
     bind_r (bw_pack_H 0x0000 buf) (\<lambda>buf.
     bind_r (bw_pack_B (of_char CHR ''c'') buf) (\<lambda>buf.
     bind_r (bw_pack_B 0xff buf) (\<lambda>buf.
     bw_pack_I cache_size buf)))"

text \<open>Lines 114 to 144: the loop over \<open>files\<close>, with \<open>files[i + 1]\<close> the head of the
  rest.\<close>

fun pack_records ::
  "(string \<Rightarrow> byte list option) \<Rightarrow> entry list \<Rightarrow> bool \<Rightarrow> nat \<Rightarrow> pyfile \<Rightarrow> error + pyfile"
where
  "pack_records enc [] in_cache cache_size buf = Inr buf"
| "pack_records enc (e # rest) in_cache cache_size buf =
     (let in_cache' = (if \<not> in_cache \<and> entry_section e = CHR ''c'' then True else in_cache) in
      bind_r (pack_entry enc e in_cache' cache_size buf) (\<lambda>buf.
      let cache_size' = (if in_cache' then cache_size + snd (snd (snd e)) else cache_size) in
      if in_cache' \<and> (rest = [] \<or> entry_section (hd rest) \<noteq> CHR ''c'') then
        bind_r (pack_trailer cache_size' buf) (\<lambda>buf.
        pack_records enc rest False cache_size' buf)
      else pack_records enc rest in_cache' cache_size' buf))"

text \<open>Lines 148 to 157: the payload loop. The file opened is \<open>name.ext\<close>, the line of
  the config again.\<close>

fun pack_payload ::
  "(string \<Rightarrow> byte list option) \<Rightarrow> entry list \<Rightarrow> pyfile \<Rightarrow> error + pyfile"
where
  "pack_payload fs [] buf = Inr buf"
| "pack_payload fs (e # rest) buf =
     (case e of (name, ext, section, fsize) \<Rightarrow>
        (case fs (name @ ''.'' @ ext) of
           None \<Rightarrow> Inl OSError
         | Some bytes \<Rightarrow>
            (let buf = bw_write bytes buf;
                 buf = (if section \<noteq> CHR ''c'' then bw_align 2048 buf
                        else if rest = [] \<or> entry_section (hd rest) \<noteq> CHR ''c''
                        then bw_align 2048 buf else buf)
             in pack_payload fs rest buf)))"

text \<open>Line 164: the warning is printed when there are more than 255 files.\<close>

definition header_warning :: "entry list \<Rightarrow> bool" where
  "header_warning files = (length files > 255)"

text \<open>\<open>pack_stage\<close> returns \<open>total - start\<close>; the model returns the buffer with it.
  The cursor only moves forward between \<open>start\<close> and \<open>total\<close>, so the difference
  is never negative.\<close>

definition pack_stage ::
  "(string \<Rightarrow> byte list option) \<Rightarrow> stage_dir \<Rightarrow> pyfile \<Rightarrow> error + nat \<times> pyfile"
where
  "pack_stage enc stage buf =
     bind_r (read_config (assets stage) (cnf stage) None []) (\<lambda>files.
     let start = pos buf;
         buf = file_seek (start + 4) buf in
     bind_r (pack_records enc files False 0 buf) (\<lambda>buf.
     let buf = bw_align 2048 buf in
     bind_r (pack_payload (assets stage) files buf) (\<lambda>buf.
     let header = 4 + length files * 8;
         header = ((header + 2047) div 2048) * 2048;
         total = pos buf;
         buf = file_seek start buf in
     bind_r (bw_pack_h (header div 2048) buf) (\<lambda>buf.
     bind_r (bw_pack_h ((total - start) div 2048) buf) (\<lambda>buf.
     let buf = file_seek total buf in
     Inr (total - start, buf))))))"

section \<open>Unpacking one stage\<close>

text \<open>\<open>str.islower\<close> on one character below 256: the letters a to z and the
  lower-case code points of Latin-1.\<close>

definition islower :: "char \<Rightarrow> bool" where
  "islower c =
     (let n = (of_char c :: nat)
      in (97 \<le> n \<and> n \<le> 122) \<or> n = 170 \<or> n = 181 \<or> n = 186
         \<or> (223 \<le> n \<and> n \<le> 246) \<or> (248 \<le> n \<and> n \<le> 255))"

text \<open>The format \<open>04x\<close> of a value of two bytes, and the decimal format of a counter.\<close>

definition hex_digit :: "nat \<Rightarrow> char" where
  "hex_digit d = ''0123456789abcdef'' ! (d mod 16)"

definition hex4 :: "nat \<Rightarrow> string" where
  "hex4 v = map (\<lambda>i. hex_digit (v div 16 ^ i)) [3, 2, 1, 0]"

fun decimal :: "nat \<Rightarrow> string" where
  "decimal n =
     (if n < 10 then [hex_digit n] else decimal (n div 10) @ [hex_digit (n mod 10)])"

text \<open>Lines 280 to 283: the four reads of one record.\<close>

definition read_record :: "pyfile \<Rightarrow> error + (nat \<times> char \<times> char \<times> nat) \<times> pyfile" where
  "read_record buf =
     bind_r (br_unpack 2 buf) (\<lambda>(name, buf).
     bind_r (br_unpack 1 buf) (\<lambda>(mode, buf).
     bind_r (br_unpack 1 buf) (\<lambda>(ext, buf).
     bind_r (br_unpack 4 buf) (\<lambda>(sz, buf).
     Inr ((name, char_of mode, char_of ext, sz), buf)))))"

lemma br_unpack_pos:
  "br_unpack k buf = Inr (v, buf') \<Longrightarrow> 0 < k \<Longrightarrow>
     pos buf' = pos buf + k \<and> content buf' = content buf \<and> pos buf + k \<le> length (content buf)"
  by (auto simp: br_unpack_def file_read_def Let_def split: if_splits)

lemma read_record_pos:
  assumes "read_record buf = Inr (r, buf')"
  shows "pos buf' = pos buf + 8 \<and> content buf' = content buf
         \<and> pos buf + 8 \<le> length (content buf)"
proof -
  from assms obtain a b1 where 1: "br_unpack 2 buf = Inr (a, b1)"
    by (auto simp: read_record_def bind_r_def split: sum.splits)
  from assms 1 obtain m b2 where 2: "br_unpack 1 b1 = Inr (m, b2)"
    by (auto simp: read_record_def bind_r_def split: sum.splits)
  from assms 1 2 obtain x b3 where 3: "br_unpack 1 b2 = Inr (x, b3)"
    by (auto simp: read_record_def bind_r_def split: sum.splits)
  from assms 1 2 3 obtain z where 4: "br_unpack 4 b3 = Inr (z, buf')"
    by (auto simp: read_record_def bind_r_def split: sum.splits)
  from br_unpack_pos[OF 1] br_unpack_pos[OF 2] br_unpack_pos[OF 3] br_unpack_pos[OF 4]
  show ?thesis by simp
qed

text \<open>An element of the \<open>files\<close> of the unpack side: \<open>(name, mode, size)\<close>.\<close>

type_synonym uentry = "string \<times> char \<times> nat"

text \<open>Lines 288 to 311: the body of the loop after the test for the end. It gives the
  element appended to \<open>files\<close> and the new \<open>mdl_count\<close>, \<open>tex_count\<close> and
  \<open>dar_name\<close>.\<close>

definition resolve_entry ::
  "(string \<Rightarrow> string option) \<Rightarrow> nat \<times> char \<times> char \<times> nat \<Rightarrow> nat \<Rightarrow> nat \<Rightarrow> string
     \<Rightarrow> error + uentry \<times> nat \<times> nat \<times> string"
where
  "resolve_entry table r mdl_count tex_count dar_name =
     (case r of (name, mode, ext, sz) \<Rightarrow>
        if mode \<notin> set ''cnrs'' then Inl AssertionError
        else if \<not> (islower ext \<or> ext = CHR 0xFF) then Inl AssertionError
        else
          let dar_name' = (if mode = CHR ''r'' then ''res'' else dar_name) in
          if name \<noteq> 0x0000 then
            (case table (hex4 name @ ''.'' @ [ext]) of
               None \<Rightarrow> Inl KeyError
             | Some nm \<Rightarrow> Inr ((nm, mode, sz), mdl_count, tex_count, dar_name'))
          else if ext \<noteq> CHR 0xFF \<and> mode \<in> set ''cr'' then
            Inr ((dar_name' @ ''_mdl'' @ decimal mdl_count @ ''.dar'', mode, sz),
                 mdl_count + 1, tex_count, dar_name')
          else if ext \<noteq> CHR 0xFF \<and> mode = CHR ''n'' then
            Inr ((dar_name' @ ''_tex'' @ decimal tex_count @ ''.dar'', mode, sz),
                 mdl_count, tex_count + 1, dar_name')
          else
            Inr ((''cache_end'', mode, sz), mdl_count, tex_count, dar_name'))"

text \<open>Lines 279 to 311: the \<open>while True\<close> loop. Every turn reads eight bytes or
  raises, so the bytes left in the file bound the number of turns.\<close>

function read_entries ::
  "(string \<Rightarrow> string option) \<Rightarrow> pyfile \<Rightarrow> nat \<Rightarrow> nat \<Rightarrow> string \<Rightarrow> uentry list
     \<Rightarrow> error + uentry list \<times> pyfile"
where
  "read_entries table buf mdl_count tex_count dar_name files =
     (case read_record buf of
        Inl e \<Rightarrow> Inl e
      | Inr (r, buf') \<Rightarrow>
          if fst (snd r) = CHR 0x00 then Inr (files, buf')
          else
            (case resolve_entry table r mdl_count tex_count dar_name of
               Inl e \<Rightarrow> Inl e
             | Inr (u, mdl_count', tex_count', dar_name') \<Rightarrow>
                 read_entries table buf' mdl_count' tex_count' dar_name' (files @ [u])))"
  by pat_completeness auto
termination
proof (relation "measure (\<lambda>(table, buf, rest). length (content buf) - pos buf)")
  show "wf (measure (\<lambda>(table, buf, rest). length (content buf) - pos buf))" by simp
qed (auto dest!: read_record_pos)

declare read_entries.simps [simp del]

text \<open>Lines 227 to 251: the lines written to the new \<open>data.cnf\<close>, in order, each
  without its newline.\<close>

definition directive :: "char \<Rightarrow> string" where
  "directive mode =
     (if mode = CHR ''c'' then ''.cache'' else if mode = CHR ''n'' then ''.nocache''
      else if mode = CHR ''r'' then ''.resident'' else ''.sound'')"

fun write_stage_config :: "uentry list \<Rightarrow> char option \<Rightarrow> error + string list" where
  "write_stage_config [] section = Inr []"
| "write_stage_config ((name, mode, sz) # rest) section =
     (if mode \<notin> set ''cnrs'' then Inl AssertionError
      else if name = ''cache_end'' then write_stage_config rest section
      else
        let mode' = (if sublist ''.bin'' name then CHR ''n'' else mode) in
        if section \<noteq> Some mode' then
          bind_r (write_stage_config rest (Some mode')) (\<lambda>out.
          Inr (directive mode' # name # out))
        else
          bind_r (write_stage_config rest section) (\<lambda>out. Inr (name # out)))"

text \<open>Lines 332 to 334: the size of an entry. The size of a cache entry is a
  difference and can be negative; \<open>files[i + 1]\<close> past the end is an
  \<open>IndexError\<close>.\<close>

definition entry_size :: "uentry \<Rightarrow> uentry list \<Rightarrow> error + int" where
  "entry_size u rest =
     (case u of (name, mode, sz) \<Rightarrow>
        if mode = CHR ''c'' then
          (case rest of
             [] \<Rightarrow> Inl IndexError
           | (_, _, nextsize) # _ \<Rightarrow> Inr (int nextsize - int sz))
        else Inr (int sz))"

text \<open>Lines 325 to 340: the files written, in order, each with its bytes.\<close>

fun extract_files ::
  "uentry list \<Rightarrow> pyfile \<Rightarrow> error + (string \<times> byte list) list \<times> pyfile"
where
  "extract_files [] buf = Inr ([], buf)"
| "extract_files ((name, mode, sz) # rest) buf =
     (if name = ''cache_end'' then extract_files rest (br_align 2048 buf)
      else
        bind_r (entry_size (name, mode, sz) rest) (\<lambda>n.
        bind_r (br_read n buf) (\<lambda>(bytes, buf).
        let buf = (if mode \<noteq> CHR ''c'' then br_align 2048 buf else buf) in
        bind_r (extract_files rest buf) (\<lambda>(written, buf).
        Inr ((name, bytes) # written, buf)))))"

text \<open>\<open>unpack_stage\<close>: the result is the new \<open>data.cnf\<close>, the files written and the
  reader.\<close>

definition unpack_stage ::
  "(string \<Rightarrow> string option) \<Rightarrow> pyfile
     \<Rightarrow> error + string list \<times> (string \<times> byte list) list \<times> pyfile"
where
  "unpack_stage table buf =
     (let start = pos buf in
      bind_r (br_unpack_h buf) (\<lambda>(header, buf).
      bind_r (br_unpack_h buf) (\<lambda>(total, buf).
      bind_r (read_entries table buf 1 1 ''stg'' []) (\<lambda>(files, buf).
      bind_r (br_seek (int start + header * 2048) buf) (\<lambda>buf.
      bind_r (write_stage_config files None) (\<lambda>config.
      bind_r (extract_files files buf) (\<lambda>(written, buf).
      Inr (config, written, buf))))))))"

section \<open>Packing the container\<close>

text \<open>\<open>str.encode('ascii')\<close> and the format \<open>8s\<close>, which cuts or zero-pads to
  eight bytes.\<close>

definition encode_ascii :: "string \<Rightarrow> error + byte list" where
  "encode_ascii s =
     (if list_all (\<lambda>c. (of_char c :: nat) < 128) s
      then Inr (map (\<lambda>c. of_nat (of_char c)) s) else Inl UnicodeEncodeError)"

definition struct_pack_8s :: "byte list \<Rightarrow> byte list" where
  "struct_pack_8s raw = take 8 raw @ replicate (8 - length raw) 0"

text \<open>Lines 193 to 197. The stage directories are a parameter: \<open>None\<close> where
  \<open>data.cnf\<close> cannot be opened.\<close>

fun pack_stages ::
  "(string \<Rightarrow> byte list option) \<Rightarrow> (string \<Rightarrow> stage_dir option) \<Rightarrow> string list \<Rightarrow> pyfile
     \<Rightarrow> error + (string \<times> nat) list \<times> pyfile"
where
  "pack_stages enc dirs [] buf = Inr ([], buf)"
| "pack_stages enc dirs (stage # rest) buf =
     (case dirs stage of
        None \<Rightarrow> Inl OSError
      | Some d \<Rightarrow>
          bind_r (pack_stage enc d buf) (\<lambda>(sz, buf).
          let buf = bw_align 2048 buf in
          bind_r (pack_stages enc dirs rest buf) (\<lambda>(sizes, buf).
          Inr ((stage, sz) # sizes, buf))))"

text \<open>Lines 201 to 209.\<close>

fun write_table :: "(string \<times> nat) list \<Rightarrow> nat \<Rightarrow> pyfile \<Rightarrow> error + pyfile" where
  "write_table [] off buf = Inr buf"
| "write_table ((stage, sz) # rest) off buf =
     bind_r (encode_ascii stage) (\<lambda>raw.
     let buf = bw_write (struct_pack_8s raw) buf in
     bind_r (bw_pack_I off buf) (\<lambda>buf.
     write_table rest (off + (sz + 2047) div 2048) buf))"

text \<open>\<open>pack_dir\<close>: the result is the content of the output file.\<close>

definition pack_dir ::
  "(string \<Rightarrow> byte list option) \<Rightarrow> (string \<Rightarrow> stage_dir option) \<Rightarrow> string list
     \<Rightarrow> error + byte list"
where
  "pack_dir enc dirs stage_list =
     (let stages = map strip stage_list;
          buf = \<lparr>content = [], pos = 0\<rparr>;
          header_size = length stages * 12 in
      bind_r (bw_pack_I header_size buf) (\<lambda>buf.
      let buf = file_seek (((header_size + 2047) div 2048) * 2048) buf in
      bind_r (pack_stages enc dirs stages buf) (\<lambda>(sizes, buf).
      let buf = file_seek 4 buf in
      bind_r (write_table sizes 1 buf) (\<lambda>buf.
      Inr (content buf)))))"

section \<open>Reading a config list back\<close>

text \<open>The section each asset line of a config list stands under: the loop of
  \<open>read_config\<close> without its checks and without the file sizes.\<close>

fun cnf_sections :: "string list \<Rightarrow> char option \<Rightarrow> (string \<times> char option) list" where
  "cnf_sections [] section = []"
| "cnf_sections (l # ls) section =
     (let line = strip l in
      if line = ''.resident'' then cnf_sections ls (Some CHR ''r'')
      else if line = ''.nocache'' then cnf_sections ls (Some CHR ''n'')
      else if line = ''.cache'' then cnf_sections ls (Some CHR ''c'')
      else if line = ''.sound'' then cnf_sections ls (Some CHR ''s'')
      else (line, section) # cnf_sections ls section)"

text \<open>The codec on strings of ASCII characters, where EUC-JP gives each character as
  its own byte: the encoder of the concrete inputs below.\<close>

definition ascii_enc :: "string \<Rightarrow> byte list option" where
  "ascii_enc s =
     (if list_all (\<lambda>c. (of_char c :: nat) < 128) s
      then Some (map (\<lambda>c. of_nat (of_char c)) s) else None)"

section \<open>The checksum\<close>

lemma and_ffff_nat: "(x::nat) AND 0xffff = take_bit 16 x"
proof -
  have "(0xffff::nat) = mask 16" by (simp add: mask_eq_exp_minus_1)
  then show ?thesis by (simp only: take_bit_eq_mask)
qed

lemma and_ffff_word: "(x :: 16 word) AND 0xFFFF = x"
proof -
  have "(0xFFFF :: 16 word) = - 1" by simp
  then show ?thesis by (simp only: and.right_neutral)
qed

lemma take_bit_drop_bit_u16:
  "take_bit 16 (drop_bit 11 (unat (acc :: 16 word))) = drop_bit 11 (unat acc)"
proof -
  have "unat acc < 2 ^ 16" using unsigned_less[of acc] by simp
  then have "drop_bit 11 (unat acc) < 2 ^ 16"
    by (simp add: drop_bit_eq_div less_mult_imp_div_less)
  then show ?thesis by (simp only: take_bit_nat_eq_self)
qed

lemma unat_ucast_byte: "unat (ucast (s :: byte) :: 16 word) = unat s"
proof -
  have "unat s < 2 ^ 8" using unsigned_less[of s] by simp
  then have "unat s < 2 ^ 16" by simp
  then show ?thesis by (simp add: unsigned_ucast_eq take_bit_nat_eq_self)
qed

lemma strcode_step_checksum: "strcode_step (unat acc) s = unat (checksum_step acc s)"
  apply (simp add: strcode_step_def checksum_step_def and_ffff_word and_ffff_nat
      unat_word_ariths unsigned_or_eq unsigned_push_bit_eq unat_drop_bit_eq
      take_bit_drop_bit_u16 unat_ucast_byte)
  apply (simp add: take_bit_eq_mod)
  done

lemma strcode_fold_checksum:
  "foldl strcode_step (unat acc) bs = unat (foldl checksum_step acc bs)"
  by (induction bs arbitrary: acc) (simp_all add: strcode_step_checksum)

lemma strcode_bytes_checksum: "strcode_bytes bs = unat (checksum bs)"
  using strcode_fold_checksum[of 0 bs] by (simp add: strcode_bytes_def checksum_def)

lemma strcode_bytes_lt: "strcode_bytes bs < 65536"
  using unsigned_less[of "checksum bs", where 'a = nat] by (simp add: strcode_bytes_checksum)

text \<open>
  Claim C7. For every name, \<open>strcode\<close> is the reference fold over the bytes of the
  name's encoding: from 0, each byte rotates the 16-bit accumulator left by five and
  is added to it, both modulo \<open>2 ^ 16\<close>. It raises where the encoding does, and its
  value is below \<open>2 ^ 16\<close>. It is a function of the bytes alone.
\<close>

theorem strcode_is_checksum:
  "strcode enc s =
     (case enc s of None \<Rightarrow> Inl UnicodeEncodeError | Some bs \<Rightarrow> Inr (unat (checksum bs)))
   \<and> strcode_bytes bs = unat (checksum bs) \<and> strcode_bytes bs < 2 ^ 16"
proof (intro conjI)
  show "strcode enc s =
     (case enc s of None \<Rightarrow> Inl UnicodeEncodeError | Some bs \<Rightarrow> Inr (unat (checksum bs)))"
    by (simp add: strcode_def strcode_bytes_checksum split: option.splits)
  show "strcode_bytes bs = unat (checksum bs)" by (rule strcode_bytes_checksum)
  show "strcode_bytes bs < 2 ^ 16" using strcode_bytes_lt[of bs] by simp
qed

section \<open>The bytes pack writes\<close>

text \<open>
  The writes of the pack side, as values: the records of a stage, their bytes and the
  payload. Each is proved equal to what the loops above write into the buffer.
\<close>

lemma pos_file_write: "pos (file_write bs f) = pos f + length bs"
  by (simp add: file_write_def)

lemma file_write_Nil: "file_write [] f = f"
  by (simp add: file_write_def)

lemma file_write_append: "file_write b (file_write a f) = file_write (a @ b) f"
proof (cases "a = []")
  case True then show ?thesis by (simp add: file_write_def)
next
  case a: False
  show ?thesis
  proof (cases "b = []")
    case True then show ?thesis by (simp add: file_write_def)
  next
    case False
    with a show ?thesis
      by (auto simp: file_write_def min_def add.assoc add.commute add.left_commute)
  qed
qed

text \<open>A record: \<open>(name_code, section_tag, ext_tag, value)\<close>.\<close>

type_synonym rec = "nat \<times> nat \<times> nat \<times> nat"

definition record_bytes :: "rec \<Rightarrow> byte list" where
  "record_bytes r =
     (case r of (name, tag, ext, v) \<Rightarrow>
        le_bytes 2 name @ le_bytes 1 tag @ le_bytes 1 ext @ le_bytes 4 v)"

definition entry_record ::
  "(string \<Rightarrow> byte list option) \<Rightarrow> entry \<Rightarrow> bool \<Rightarrow> nat \<Rightarrow> error + rec"
where
  "entry_record enc e in_cache cache_size =
     (case e of (name, ext, section, fsize) \<Rightarrow>
        bind_r (if ext = ''dar'' then Inr 0 else strcode enc name) (\<lambda>code.
        bind_r (case ext of [] \<Rightarrow> Inl IndexError | c # _ \<Rightarrow> Inr (of_char c)) (\<lambda>x.
        let v = (if in_cache then cache_size else fsize) in
        if v < 2 ^ 32
        then Inr (code, if ext = ''bin'' then of_char CHR ''s'' else of_char section, x, v)
        else Inl StructError)))"

fun stage_records ::
  "(string \<Rightarrow> byte list option) \<Rightarrow> entry list \<Rightarrow> bool \<Rightarrow> nat \<Rightarrow> error + rec list"
where
  "stage_records enc [] in_cache cache_size = Inr []"
| "stage_records enc (e # rest) in_cache cache_size =
     (let in_cache' = (in_cache \<or> entry_section e = CHR ''c'') in
      bind_r (entry_record enc e in_cache' cache_size) (\<lambda>r.
      let cache_size' = (if in_cache' then cache_size + snd (snd (snd e)) else cache_size) in
      if in_cache' \<and> (rest = [] \<or> entry_section (hd rest) \<noteq> CHR ''c'') then
        (if cache_size' < 2 ^ 32 then
           bind_r (stage_records enc rest False cache_size') (\<lambda>rs.
           Inr (r # (0, of_char CHR ''c'', 0xff, cache_size') # rs))
         else Inl StructError)
      else bind_r (stage_records enc rest in_cache' cache_size') (\<lambda>rs. Inr (r # rs))))"

definition align_pad :: "nat \<Rightarrow> nat \<Rightarrow> nat" where
  "align_pad n cur = ((cur + (n - 1)) div n) * n - cur"

fun payload_bytes ::
  "(string \<Rightarrow> byte list option) \<Rightarrow> entry list \<Rightarrow> nat \<Rightarrow> error + byte list"
where
  "payload_bytes fs [] cur = Inr []"
| "payload_bytes fs (e # rest) cur =
     (case e of (name, ext, section, fsize) \<Rightarrow>
        (case fs (name @ ''.'' @ ext) of
           None \<Rightarrow> Inl OSError
         | Some bytes \<Rightarrow>
            (let seg = bytes @
                   (if section \<noteq> CHR ''c'' \<or> rest = [] \<or> entry_section (hd rest) \<noteq> CHR ''c''
                    then replicate (align_pad 2048 (cur + length bytes)) 0 else [])
             in bind_r (payload_bytes fs rest (cur + length seg)) (\<lambda>bs. Inr (seg @ bs)))))"

lemma length_le_bytes [simp]: "length (le_bytes k v) = k"
  by (simp add: le_bytes_def)

lemma length_record_bytes [simp]: "length (record_bytes r) = 8"
  by (simp add: record_bytes_def split: prod.splits)

lemma bw_align_eq: "bw_align n buf = file_write (replicate (align_pad n (pos buf)) 0) buf"
  by (simp add: bw_align_def bw_write_def align_pad_def Let_def)

lemma strcode_lt: "strcode enc s = Inr c \<Longrightarrow> c < 65536"
  using strcode_bytes_lt by (auto simp: strcode_def split: option.splits)

lemma of_char_lt_256: "(of_char c :: nat) < 256"
  by (cases c) (simp add: of_char_def)

lemma pack_entry_eq:
  "pack_entry enc e in_cache cache_size buf =
     bind_r (entry_record enc e in_cache cache_size) (\<lambda>r. Inr (file_write (record_bytes r) buf))"
proof -
  obtain name ext sec fsize where e: "e = (name, ext, sec, fsize)"
    by (cases e) auto
  have s: "(of_char CHR ''s'' :: nat) < 256" by simp
  show ?thesis
    using of_char_lt_256[of sec]
    by (cases ext)
       (auto simp: e pack_entry_def entry_record_def bind_r_def bw_pack_H_def bw_pack_B_def
          bw_pack_I_def struct_pack_H_def struct_pack_B_def struct_pack_I_def
          file_write_append record_bytes_def Let_def of_char_lt_256
          split: sum.splits dest: strcode_lt)
qed


lemma bind_r_Inr: "bind_r (Inr x) f = f x"
  by (simp add: bind_r_def)

lemma bind_r_Inl: "bind_r (Inl e) f = Inl e"
  by (simp add: bind_r_def)

lemma bind_r_assoc: "bind_r (bind_r m f) g = bind_r m (\<lambda>x. bind_r (f x) g)"
  by (simp add: bind_r_def split: sum.splits)

lemma bind_r_if: "bind_r (if c then a else b) f = (if c then bind_r a f else bind_r b f)"
  by simp

lemmas bind_r_simps = bind_r_Inr bind_r_Inl bind_r_assoc bind_r_if

lemma pack_trailer_eq:
  "pack_trailer cache_size buf =
     (if cache_size < 2 ^ 32
      then Inr (file_write (record_bytes (0, of_char CHR ''c'', 0xff, cache_size)) buf)
      else Inl StructError)"
  by (simp add: pack_trailer_def bind_r_def bw_pack_H_def bw_pack_B_def bw_pack_I_def
      struct_pack_H_def struct_pack_B_def struct_pack_I_def file_write_append record_bytes_def)

lemma pack_records_eq:
  "pack_records enc files in_cache cache_size buf =
     bind_r (stage_records enc files in_cache cache_size)
       (\<lambda>rs. Inr (file_write (concat (map record_bytes rs)) buf))"
proof (induction files arbitrary: in_cache cache_size buf)
  case Nil
  show ?case by (simp add: bind_r_def file_write_Nil)
next
  case (Cons e rest)
  have ic: "(if \<not> in_cache \<and> entry_section e = CHR ''c'' then True else in_cache)
            = (in_cache \<or> entry_section e = CHR ''c'')" by simp
  show ?case
    unfolding pack_records.simps stage_records.simps ic Let_def
    by (simp add: pack_entry_eq pack_trailer_eq Cons.IH bind_r_simps file_write_append
        cong: if_cong)
qed

lemma pack_payload_eq:
  "pack_payload fs files buf =
     bind_r (payload_bytes fs files (pos buf)) (\<lambda>bs. Inr (file_write bs buf))"
proof (induction files arbitrary: buf)
  case Nil
  show ?case by (simp add: bind_r_def file_write_Nil)
next
  case (Cons e rest)
  obtain name ext sec fsize where e: "e = (name, ext, sec, fsize)"
    by (cases e) auto
  show ?case
  proof (cases "fs (name @ ''.'' @ ext)")
    case None
    then show ?thesis by (simp add: e bind_r_simps)
  next
    case (Some bytes)
    then show ?thesis
      unfolding e pack_payload.simps payload_bytes.simps Let_def
      by (simp add: Cons.IH bind_r_simps bw_write_def bw_align_eq file_write_append
          pos_file_write add.assoc)
  qed
qed


definition stage_layout ::
  "(string \<Rightarrow> byte list option) \<Rightarrow> stage_dir \<Rightarrow> nat \<Rightarrow> error + byte list"
where
  "stage_layout enc stage start =
     bind_r (read_config (assets stage) (cnf stage) None []) (\<lambda>files.
     bind_r (stage_records enc files False 0) (\<lambda>rs.
     let recs = concat (map record_bytes rs);
         hdr = recs @ replicate (align_pad 2048 (start + 4 + length recs)) 0 in
     bind_r (payload_bytes (assets stage) files (start + 4 + length hdr)) (\<lambda>pl.
     bind_r (struct_pack_h (((4 + length files * 8 + 2047) div 2048) * 2048 div 2048)) (\<lambda>h1.
     bind_r (struct_pack_h ((4 + length hdr + length pl) div 2048)) (\<lambda>h2.
     Inr (h1 @ h2 @ hdr @ pl))))))"

lemma length_struct_pack_h: "struct_pack_h v = Inr raw \<Longrightarrow> length raw = 2"
  by (auto simp: struct_pack_h_def split: if_splits)

lemma backpatch:
  assumes h: "length h = 4" and x: "x \<noteq> []"
  shows "file_seek (pos buf + 4 + length x)
           (file_write h (file_seek (pos buf) (file_write x (file_seek (pos buf + 4) buf))))
         = file_write (h @ x) buf"
proof -
  have hn: "h \<noteq> []" using h by auto
  show ?thesis
    using h x hn
    by (auto simp: file_write_def file_seek_def min_def add.assoc)
qed

lemma align_pad_le:
  assumes "0 < n"
  shows "cur + align_pad n cur = ((cur + (n - 1)) div n) * n" and "align_pad n cur < n"
proof -
  have 1: "(cur + (n - 1)) div n * n + (cur + (n - 1)) mod n = cur + (n - 1)"
    by (rule div_mult_mod_eq)
  have 2: "(cur + (n - 1)) mod n < n" using assms by simp
  from 1 2 show "cur + align_pad n cur = ((cur + (n - 1)) div n) * n"
    unfolding align_pad_def by linarith
  from 1 2 assms show "align_pad n cur < n"
    unfolding align_pad_def by linarith
qed

lemma dvd_add_align_pad: "0 < n \<Longrightarrow> n dvd cur + align_pad n cur"
  by (simp add: align_pad_le(1))

lemma align_pad_dvd: 
  assumes "0 < n" "n dvd cur" 
  shows "align_pad n cur = 0"
proof -
  from assms obtain m where m: "cur = m * n" by (auto simp: dvd_def)
  have z: "(n - 1) div n = 0" using assms by simp
  have "(m * n + (n - 1)) div n = m + (n - 1) div n"
    by (rule div_mult_self3) (use assms in simp)
  then have "(m * n + (n - 1)) div n = m" by (simp only: z add_0_right)
  then show ?thesis by (simp only: align_pad_def m diff_self_eq_0)
qed

lemma align_pad_pos_iff:
  assumes "0 < n"
  shows "0 < align_pad n cur \<longleftrightarrow> \<not> n dvd cur"
proof
  assume "0 < align_pad n cur"
  then show "\<not> n dvd cur" using align_pad_dvd[OF assms] by auto
next
  assume nd: "\<not> n dvd cur"
  show "0 < align_pad n cur"
  proof (rule ccontr)
    assume "\<not> 0 < align_pad n cur"
    then have "align_pad n cur = 0" by simp
    with dvd_add_align_pad[OF assms, of cur] have "n dvd cur" by simp
    with nd show False by simp
  qed
qed

lemma align_pad_header:
  assumes "2048 dvd start"
  shows "4 \<le> align_pad 2048 (start + 4 + 8 * k)"
proof -
  let ?c = "start + 4 + 8 * k"
  have 8: "(8::nat) dvd 2048" by simp
  have s8: "8 dvd start" using dvd_trans[OF 8 assms] .
  have e8: "8 dvd ?c + align_pad 2048 ?c"
    using dvd_trans[OF 8 dvd_add_align_pad[of 2048 ?c]] by simp
  from s8 obtain a where a: "start = 8 * a" by (auto simp: dvd_def)
  from e8 obtain b where b: "?c + align_pad 2048 ?c = 8 * b" by (auto simp: dvd_def)
  from a b have "align_pad 2048 ?c = 8 * b - 8 * a - 8 * k - 4" by linarith
  moreover from a b have "8 * a + 4 + 8 * k \<le> 8 * b" by linarith
  then have "a + k < b" by presburger
  ultimately show ?thesis by linarith
qed

lemma length_concat_records: "length (concat (map record_bytes rs)) = 8 * length rs"
  by (induction rs) simp_all


lemma pack_stage_eq:
  assumes al: "2048 dvd pos buf"
  shows "pack_stage enc stage buf =
           bind_r (stage_layout enc stage (pos buf)) (\<lambda>bs. Inr (length bs, file_write bs buf))"
proof (cases "read_config (assets stage) (cnf stage) None []")
  case (Inl e)
  then show ?thesis by (simp add: pack_stage_def stage_layout_def bind_r_simps)
next
  case files: (Inr files)
  show ?thesis
  proof (cases "stage_records enc files False 0")
    case (Inl e)
    then show ?thesis
      by (simp add: pack_stage_def stage_layout_def files bind_r_simps pack_records_eq Let_def)
  next
    case rs: (Inr rs)
    define recs where "recs = concat (map record_bytes rs)"
    define hdr where "hdr = recs @ replicate (align_pad 2048 (pos buf + 4 + length recs)) 0"
    have hdr_ne: "hdr \<noteq> []"
      using align_pad_header[OF al, of "length rs"]
      by (auto simp: hdr_def recs_def length_concat_records)
    show ?thesis
    proof (cases "payload_bytes (assets stage) files (pos buf + 4 + length hdr)")
      case (Inl e)
      then show ?thesis
        using hdr_def recs_def
        by (simp add: pack_stage_def stage_layout_def files rs bind_r_simps pack_records_eq
            pack_payload_eq Let_def bw_align_eq file_write_append pos_file_write file_seek_def
            add.assoc)
    next
      case pl: (Inr pl)
      have x: "hdr @ pl \<noteq> []" using hdr_ne by simp
      show ?thesis
      proof (cases "struct_pack_h (((4 + length files * 8 + 2047) div 2048) * 2048 div 2048)")
        case (Inl e)
        then show ?thesis
          using hdr_def recs_def pl
          by (simp add: pack_stage_def stage_layout_def files rs bind_r_simps pack_records_eq
              pack_payload_eq Let_def bw_align_eq file_write_append pos_file_write
              file_seek_def add.assoc bw_pack_h_def)
      next
        case h1: (Inr h1)
        show ?thesis
        proof (cases "struct_pack_h ((4 + length hdr + length pl) div 2048)")
          case (Inl e)
          then show ?thesis
            using hdr_def recs_def pl h1
            by (simp add: pack_stage_def stage_layout_def files rs bind_r_simps
                pack_records_eq pack_payload_eq Let_def bw_align_eq file_write_append
                pos_file_write file_seek_def add.assoc bw_pack_h_def)
        next
          case h2: (Inr h2)
          have lh: "length (h1 @ h2) = 4"
            using length_struct_pack_h[OF h1] length_struct_pack_h[OF h2] by simp
          have bp: "file_seek (pos buf + 4 + length (hdr @ pl))
                      (file_write (h1 @ h2) (file_seek (pos buf)
                         (file_write (hdr @ pl) (file_seek (pos buf + 4) buf))))
                    = file_write ((h1 @ h2) @ hdr @ pl) buf"
            by (rule backpatch[OF lh x])
          have lay: "stage_layout enc stage (pos buf) = Inr (h1 @ h2 @ hdr @ pl)"
            using hdr_def recs_def pl h1 h2
            by (simp add: stage_layout_def files rs bind_r_simps Let_def)
          have "pack_stage enc stage buf =
                  Inr (4 + length hdr + length pl,
                       file_seek (pos buf + 4 + length (hdr @ pl))
                      (file_write (h1 @ h2) (file_seek (pos buf)
                         (file_write (hdr @ pl) (file_seek (pos buf + 4) buf)))))"
            using hdr_def recs_def pl h1 h2
            by (simp add: pack_stage_def files rs bind_r_simps
                pack_records_eq pack_payload_eq Let_def bw_align_eq file_write_append
                pos_file_write file_seek_def add.assoc bw_pack_h_def)
          then show ?thesis
            using lh by (simp only: bp lay bind_r_Inr) simp
        qed
      qed
    qed
  qed
qed

section \<open>The order of the directives\<close>

definition is_directive :: "string \<Rightarrow> bool" where
  "is_directive line =
     (line = ''.resident'' \<or> line = ''.nocache'' \<or> line = ''.cache'' \<or> line = ''.sound'')"

text \<open>The directives of a config list, in order, as \<open>read_config\<close> sees them.\<close>

definition directives_of :: "string list \<Rightarrow> string list" where
  "directives_of lines = filter is_directive (map strip lines)"

definition directive_rank :: "string \<Rightarrow> nat" where
  "directive_rank line =
     (if line = ''.resident'' then 1 else if line = ''.nocache'' then 2
      else if line = ''.cache'' then 3 else 4)"

definition section_rank :: "char option \<Rightarrow> nat" where
  "section_rank section =
     (if section = None then 0 else if section = Some CHR ''r'' then 1
      else if section = Some CHR ''n'' then 2 else if section = Some CHR ''c'' then 3 else 4)"

definition order_ok :: "char option \<Rightarrow> string list \<Rightarrow> bool" where
  "order_ok section ds =
     (sorted_wrt (\<lambda>a b. directive_rank a < directive_rank b) ds
      \<and> list_all (\<lambda>d. section_rank section < directive_rank d) ds
      \<and> (''.sound'' \<in> set ds \<longrightarrow> ''.cache'' \<in> set ds \<or> section = Some CHR ''c'')
      \<and> (''.cache'' \<in> set ds \<longrightarrow>
           ''.resident'' \<in> set ds \<or> ''.nocache'' \<in> set ds
           \<or> section = Some CHR ''r'' \<or> section = Some CHR ''n''))"

lemma directive_rank_values:
  "directive_rank ''.resident'' = 1" "directive_rank ''.nocache'' = 2"
  "directive_rank ''.cache'' = 3" "directive_rank ''.sound'' = 4"
  by (simp_all add: directive_rank_def)

lemma section_rank_values:
  "section_rank None = 0" "section_rank (Some CHR ''r'') = 1"
  "section_rank (Some CHR ''n'') = 2" "section_rank (Some CHR ''c'') = 3"
  "section_rank (Some CHR ''s'') = 4"
  by (simp_all add: section_rank_def)

lemma order_ok_Cons:
  assumes ok: "order_ok sec' ds"
    and lt: "section_rank sec < directive_rank d"
    and eq: "directive_rank d = section_rank sec'"
    and snd: "d = ''.sound'' \<longrightarrow> sec = Some CHR ''c''"
    and cch: "d = ''.cache'' \<longrightarrow> sec = Some CHR ''r'' \<or> sec = Some CHR ''n''"
    and c': "sec' = Some CHR ''c'' \<longrightarrow> d = ''.cache''"
    and rn': "sec' = Some CHR ''r'' \<or> sec' = Some CHR ''n'' \<longrightarrow> d = ''.resident'' \<or> d = ''.nocache''"
  shows "order_ok sec (d # ds)"
proof -
  from ok have 1: "sorted_wrt (\<lambda>a b. directive_rank a < directive_rank b) ds"
    and 2: "list_all (\<lambda>x. section_rank sec' < directive_rank x) ds"
    and 3: "''.sound'' \<in> set ds \<longrightarrow> ''.cache'' \<in> set ds \<or> sec' = Some CHR ''c''"
    and 4: "''.cache'' \<in> set ds \<longrightarrow> ''.resident'' \<in> set ds \<or> ''.nocache'' \<in> set ds
           \<or> sec' = Some CHR ''r'' \<or> sec' = Some CHR ''n''"
    by (simp_all add: order_ok_def)
  from 2 have two: "\<forall>x \<in> set ds. directive_rank d < directive_rank x"
    by (simp add: list_all_iff eq)
  have a: "sorted_wrt (\<lambda>a b. directive_rank a < directive_rank b) (d # ds)"
    using 1 two by simp
  have b: "list_all (\<lambda>x. section_rank sec < directive_rank x) (d # ds)"
    using two lt by (auto simp: list_all_iff)
  have c: "''.sound'' \<in> set (d # ds) \<longrightarrow> ''.cache'' \<in> set (d # ds) \<or> sec = Some CHR ''c''"
    using 3 snd c' by auto
  have e: "''.cache'' \<in> set (d # ds) \<longrightarrow> ''.resident'' \<in> set (d # ds)
            \<or> ''.nocache'' \<in> set (d # ds) \<or> sec = Some CHR ''r'' \<or> sec = Some CHR ''n''"
    using 4 cch rn' by auto
  from a b c e show ?thesis unfolding order_ok_def by blast
qed

lemma strip_directive:
  "strip ''.resident'' = ''.resident''" "strip ''.nocache'' = ''.nocache''"
  "strip ''.cache'' = ''.cache''" "strip ''.sound'' = ''.sound''"
  by (simp_all add: strip_def isspace_def)

lemma read_config_order:
  "read_config fs lines sec files = Inr out \<Longrightarrow> order_ok sec (directives_of lines)"
proof (induction lines arbitrary: sec files)
  case Nil
  show ?case by (simp add: order_ok_def directives_of_def)
next
  case (Cons l ls)
  have ds: "is_directive (strip l) \<Longrightarrow> directives_of (l # ls) = strip l # directives_of ls"
    by (simp add: directives_of_def)
  consider (r) "strip l = ''.resident''" | (n) "strip l = ''.nocache''"
    | (c) "strip l = ''.cache''" | (s) "strip l = ''.sound''" | (f) "\<not> is_directive (strip l)"
    unfolding is_directive_def by blast
  then show ?case
  proof cases
    case r
    from Cons.prems have sec: "sec = None"
      and rest: "read_config fs ls (Some CHR ''r'') files = Inr out"
      by (simp_all add: r Let_def split: if_splits)
    have "order_ok sec (''.resident'' # directives_of ls)"
      by (rule order_ok_Cons[OF Cons.IH[OF rest]])
         (simp_all add: sec directive_rank_values section_rank_values)
    then show ?thesis by (simp add: ds r is_directive_def)
  next
    case n
    from Cons.prems have sec: "sec = None \<or> sec = Some CHR ''r''"
      and rest: "read_config fs ls (Some CHR ''n'') files = Inr out"
      by (simp_all add: n Let_def split: if_splits)
    have "order_ok sec (''.nocache'' # directives_of ls)"
      using sec
      by (intro order_ok_Cons[OF Cons.IH[OF rest]])
         (auto simp: directive_rank_values section_rank_values)
    then show ?thesis by (simp add: ds n is_directive_def)
  next
    case c
    from Cons.prems have sec: "sec = Some CHR ''r'' \<or> sec = Some CHR ''n''"
      and rest: "read_config fs ls (Some CHR ''c'') files = Inr out"
      by (simp_all add: c Let_def split: if_splits)
    have "order_ok sec (''.cache'' # directives_of ls)"
      using sec
      by (intro order_ok_Cons[OF Cons.IH[OF rest]])
         (auto simp: directive_rank_values section_rank_values)
    then show ?thesis by (simp add: ds c is_directive_def)
  next
    case s
    from Cons.prems have sec: "sec = Some CHR ''c''"
      and rest: "read_config fs ls (Some CHR ''s'') files = Inr out"
      by (simp_all add: s Let_def split: if_splits)
    have "order_ok sec (''.sound'' # directives_of ls)"
      by (rule order_ok_Cons[OF Cons.IH[OF rest]])
         (simp_all add: sec directive_rank_values section_rank_values)
    then show ?thesis by (simp add: ds s is_directive_def)
  next
    case f
    then have nd: "strip l \<noteq> ''.resident''" "strip l \<noteq> ''.nocache''"
      "strip l \<noteq> ''.cache''" "strip l \<noteq> ''.sound''"
      by (simp_all add: is_directive_def)
    from Cons.prems obtain files' where "read_config fs ls sec files' = Inr out"
      by (simp add: Let_def nd split: option.splits list.splits)
    from Cons.IH[OF this] f show ?thesis
      by (simp add: directives_of_def)
  qed
qed

text \<open>An asset line that neither \<open>split\<close> nor \<open>getsize\<close> refuses: it splits into
  two parts at its dots and its file is there.\<close>

definition asset_line_ok :: "(string \<Rightarrow> byte list option) \<Rightarrow> string \<Rightarrow> bool" where
  "asset_line_ok fs l =
     (is_directive (strip l)
      \<or> (length (split_on CHR ''.'' (strip l)) = 2 \<and> fs (strip l) \<noteq> None))"

lemma read_config_step:
  "strip l = ''.resident'' \<Longrightarrow> read_config fs (l # ls) sec fl =
     (if sec = None then read_config fs ls (Some CHR ''r'') fl else Inl AssertionError)"
  "strip l = ''.nocache'' \<Longrightarrow> read_config fs (l # ls) sec fl =
     (if sec = None \<or> sec = Some CHR ''r'' then read_config fs ls (Some CHR ''n'') fl
      else Inl AssertionError)"
  "strip l = ''.cache'' \<Longrightarrow> read_config fs (l # ls) sec fl =
     (if sec = Some CHR ''r'' \<or> sec = Some CHR ''n'' then read_config fs ls (Some CHR ''c'') fl
      else Inl AssertionError)"
  "strip l = ''.sound'' \<Longrightarrow> read_config fs (l # ls) sec fl =
     (if sec = Some CHR ''c'' then read_config fs ls (Some CHR ''s'') fl
      else Inl AssertionError)"
  by (simp_all add: Let_def)

lemma read_config_error:
  assumes "read_config fs lines sec files = Inl e" and "list_all (asset_line_ok fs) lines"
  shows "e = AssertionError"
  using assms
proof (induction lines arbitrary: sec files)
  case Nil
  then show ?case by simp
next
  case (Cons l ls)
  from Cons.prems(2) have okl: "asset_line_ok fs l" and oks: "list_all (asset_line_ok fs) ls"
    by simp_all
  consider (r) "strip l = ''.resident''" | (n) "strip l = ''.nocache''"
    | (c) "strip l = ''.cache''" | (s) "strip l = ''.sound''" | (f) "\<not> is_directive (strip l)"
    unfolding is_directive_def by blast
  then show ?case
  proof cases
    case r
    from Cons.prems(1) Cons.IH[OF _ oks] show ?thesis
      unfolding read_config_step(1)[OF r] by (auto split: if_splits)
  next
    case n
    from Cons.prems(1) Cons.IH[OF _ oks] show ?thesis
      unfolding read_config_step(2)[OF n] by (auto split: if_splits)
  next
    case c
    from Cons.prems(1) Cons.IH[OF _ oks] show ?thesis
      unfolding read_config_step(3)[OF c] by (auto split: if_splits)
  next
    case s
    from Cons.prems(1) Cons.IH[OF _ oks] show ?thesis
      unfolding read_config_step(4)[OF s] by (auto split: if_splits)
  next
    case f
    then have nd: "strip l \<noteq> ''.resident''" "strip l \<noteq> ''.nocache''"
      "strip l \<noteq> ''.cache''" "strip l \<noteq> ''.sound''"
      by (simp_all add: is_directive_def)
    from okl f have l2: "length (split_on CHR ''.'' (strip l)) = 2" and ex: "fs (strip l) \<noteq> None"
      by (simp_all add: asset_line_ok_def)
    from l2 obtain name ext where sp: "split_on CHR ''.'' (strip l) = [name, ext]"
      by (cases "split_on CHR ''.'' (strip l)"; simp)
         (metis length_0_conv length_Suc_conv)
    from ex obtain bytes where bt: "fs (strip l) = Some bytes" by auto
    show ?thesis
    proof (cases sec)
      case None
      with Cons.prems(1) show ?thesis by (simp add: Let_def nd)
    next
      case (Some m)
      with Cons.prems(1) have "read_config fs ls sec (files @ [(name, ext, m, length bytes)]) = Inl e"
        by (simp add: Let_def nd sp bt)
      from Cons.IH[OF this oks] show ?thesis .
    qed
  qed
qed

text \<open>
  Claim C6, amended. A config list is read without error only if its directives stand in
  the order Resident, NoCache, Cache, Sound with none repeated, \<open>.sound\<close> only after
  \<open>.cache\<close>, and \<open>.cache\<close> only after \<open>.resident\<close> or \<open>.nocache\<close>. Each
  directive is checked where the reader reaches it: \<open>.resident\<close> is accepted before
  any directive, \<open>.nocache\<close> before any or after \<open>.resident\<close>, \<open>.cache\<close> in the
  states Resident and NoCache, \<open>.sound\<close> in the state Cache, and everywhere else the
  directive raises \<open>AssertionError\<close>. When every asset line splits into two parts
  and names a file that is there, \<open>AssertionError\<close> is the only error, so a list with
  its directives out of order or repeated fails with it.
\<close>

theorem config_order:
  "(read_config fs lines None [] = Inr files \<longrightarrow>
      sorted_wrt (\<lambda>a b. directive_rank a < directive_rank b) (directives_of lines)
      \<and> (''.sound'' \<in> set (directives_of lines) \<longrightarrow> ''.cache'' \<in> set (directives_of lines))
      \<and> (''.cache'' \<in> set (directives_of lines) \<longrightarrow>
           ''.resident'' \<in> set (directives_of lines) \<or> ''.nocache'' \<in> set (directives_of lines)))
   \<and> (list_all (asset_line_ok fs) lines
        \<and> \<not> (sorted_wrt (\<lambda>a b. directive_rank a < directive_rank b) (directives_of lines)
              \<and> (''.sound'' \<in> set (directives_of lines) \<longrightarrow> ''.cache'' \<in> set (directives_of lines))
              \<and> (''.cache'' \<in> set (directives_of lines) \<longrightarrow>
                   ''.resident'' \<in> set (directives_of lines)
                   \<or> ''.nocache'' \<in> set (directives_of lines)))
      \<longrightarrow> read_config fs lines None [] = Inl AssertionError)
   \<and> (strip l = ''.resident'' \<longrightarrow> read_config fs (l # ls) sec fl =
       (if sec = None then read_config fs ls (Some CHR ''r'') fl
        else Inl AssertionError))
   \<and> (strip l = ''.nocache'' \<longrightarrow> read_config fs (l # ls) sec fl =
       (if sec = None \<or> sec = Some CHR ''r''
        then read_config fs ls (Some CHR ''n'') fl else Inl AssertionError))
   \<and> (strip l = ''.cache'' \<longrightarrow> read_config fs (l # ls) sec fl =
       (if sec = Some CHR ''r'' \<or> sec = Some CHR ''n''
        then read_config fs ls (Some CHR ''c'') fl else Inl AssertionError))
   \<and> (strip l = ''.sound'' \<longrightarrow> read_config fs (l # ls) sec fl =
       (if sec = Some CHR ''c'' then read_config fs ls (Some CHR ''s'') fl
        else Inl AssertionError))"
proof -
  let ?ok = "sorted_wrt (\<lambda>a b. directive_rank a < directive_rank b) (directives_of lines)
      \<and> (''.sound'' \<in> set (directives_of lines) \<longrightarrow> ''.cache'' \<in> set (directives_of lines))
      \<and> (''.cache'' \<in> set (directives_of lines) \<longrightarrow>
           ''.resident'' \<in> set (directives_of lines) \<or> ''.nocache'' \<in> set (directives_of lines))"
  have A: "?ok" if a: "read_config fs lines None [] = Inr files" for files
    using read_config_order[OF a] by (auto simp: order_ok_def)
  have B: "read_config fs lines None [] = Inl AssertionError"
    if ok: "list_all (asset_line_ok fs) lines" and bad: "\<not> ?ok"
  proof (cases "read_config fs lines None []")
    case (Inl e)
    with read_config_error[OF Inl ok] show ?thesis by simp
  next
    case (Inr out)
    from A[OF Inr] bad show ?thesis by blast
  qed
  have s1: "strip l = ''.resident'' \<longrightarrow> read_config fs (l # ls) sec fl =
       (if sec = None then read_config fs ls (Some CHR ''r'') fl
        else Inl AssertionError)"
    using read_config_step(1) by blast
  have s2: "strip l = ''.nocache'' \<longrightarrow> read_config fs (l # ls) sec fl =
       (if sec = None \<or> sec = Some CHR ''r''
        then read_config fs ls (Some CHR ''n'') fl else Inl AssertionError)"
    using read_config_step(2) by blast
  have s3: "strip l = ''.cache'' \<longrightarrow> read_config fs (l # ls) sec fl =
       (if sec = Some CHR ''r'' \<or> sec = Some CHR ''n''
        then read_config fs ls (Some CHR ''c'') fl else Inl AssertionError)"
    using read_config_step(3) by blast
  have s4: "strip l = ''.sound'' \<longrightarrow> read_config fs (l # ls) sec fl =
       (if sec = Some CHR ''c'' then read_config fs ls (Some CHR ''s'') fl
        else Inl AssertionError)"
    using read_config_step(4) by blast
  from A B have AB: "(read_config fs lines None [] = Inr files \<longrightarrow> ?ok)
     \<and> (list_all (asset_line_ok fs) lines \<and> \<not> ?ok
          \<longrightarrow> read_config fs lines None [] = Inl AssertionError)"
    by blast
  from AB s1 s2 s3 s4 show ?thesis by (intro conjI) (elim conjE, assumption)+
qed


definition no_files :: "string \<Rightarrow> byte list option" where
  "no_files name = None"

theorem config_order_witness:
  "read_config no_files [''.nocache'', ''.cache'', ''.sound''] None [] = Inr []
   \<and> sorted_wrt (\<lambda>a b. directive_rank a < directive_rank b)
        (directives_of [''.nocache'', ''.cache'', ''.sound''])
   \<and> ''.sound'' \<in> set (directives_of [''.nocache'', ''.cache'', ''.sound''])
   \<and> ''.cache'' \<in> set (directives_of [''.nocache'', ''.cache'', ''.sound''])
   \<and> ''.nocache'' \<in> set (directives_of [''.nocache'', ''.cache'', ''.sound''])
   \<and> list_all (asset_line_ok no_files) [''.resident'', ''.resident'']
   \<and> \<not> sorted_wrt (\<lambda>a b. directive_rank a < directive_rank b)
          (directives_of [''.resident'', ''.resident''])
   \<and> read_config no_files [''.resident'', ''.resident''] None [] = Inl AssertionError
   \<and> strip '' .sound'' = ''.sound''
   \<and> read_config no_files ['' .sound''] (Some CHR ''n'') [] = Inl AssertionError"
proof -
  have h: "read_config no_files [''.nocache'', ''.cache'', ''.sound''] None [] = Inr []"
    by (simp add: Let_def strip_directive)
  have d: "directives_of [''.nocache'', ''.cache'', ''.sound'']
           = [''.nocache'', ''.cache'', ''.sound'']"
    by (simp add: directives_of_def is_directive_def strip_directive)
  from config_order[of no_files "[''.nocache'', ''.cache'', ''.sound'']" "[]"] h
  have 1: "sorted_wrt (\<lambda>a b. directive_rank a < directive_rank b)
        (directives_of [''.nocache'', ''.cache'', ''.sound''])"
    by blast
  have ok: "list_all (asset_line_ok no_files) [''.resident'', ''.resident'']"
    by (simp add: asset_line_ok_def is_directive_def strip_directive)
  have d2: "directives_of [''.resident'', ''.resident''] = [''.resident'', ''.resident'']"
    by (simp add: directives_of_def is_directive_def strip_directive)
  have bad: "\<not> sorted_wrt (\<lambda>a b. directive_rank a < directive_rank b)
          (directives_of [''.resident'', ''.resident''])"
    by (simp add: d2)
  from config_order[of no_files "[''.resident'', ''.resident'']"] ok bad
  have 2: "read_config no_files [''.resident'', ''.resident''] None [] = Inl AssertionError"
    by blast
  have st: "strip '' .sound'' = ''.sound''" by (simp add: strip_def isspace_def)
  from config_order[where l = "'' .sound''" and fs = no_files and ls = "[]"
      and sec = "Some CHR ''n''" and fl = "[]"] st
  have 3: "read_config no_files ['' .sound''] (Some CHR ''n'') [] = Inl AssertionError"
    by simp
  from h d 1 ok bad 2 st 3 show ?thesis by simp
qed

text \<open>Claim C6 as stated fails: \<open>.resident\<close> never appears, and \<open>.cache\<close> is
  refused.\<close>

theorem cache_first_counterexample:
  "read_config no_files [''.cache''] None [] = Inl AssertionError"
  by (simp add: Let_def strip_directive)

section \<open>Reading back what pack wrote\<close>

lemma le_bytes_Suc: "le_bytes (Suc k) v = of_nat v # le_bytes k (v div 256)"
proof -
  have "[0..<Suc k] = 0 # map Suc [0..<k]"
    by (simp add: upt_conv_Cons map_Suc_upt del: upt_Suc)
  then show ?thesis
    by (simp add: le_bytes_def comp_def div_mult2_eq del: upt_Suc)
qed

lemma le_nat_Cons: "le_nat (b # bs) = unat b + 256 * le_nat bs"
  by (simp add: le_nat_def)

lemma unat_of_nat_byte: "unat (of_nat v :: byte) = v mod 256"
  by (simp add: unat_of_nat)

lemma le_nat_le_bytes: "le_nat (le_bytes k v) = v mod 256 ^ k"
proof (induction k arbitrary: v)
  case 0
  show ?case by (simp add: le_bytes_def le_nat_def)
next
  case (Suc k)
  have "v mod 256 + 256 * (v div 256 mod 256 ^ k) = v mod (256 * 256 ^ k)"
    by (simp add: mod_mult2_eq)
  then show ?case
    by (simp add: le_bytes_Suc le_nat_Cons unat_of_nat_byte Suc.IH)
qed

lemma br_unpack_le_bytes:
  assumes "v < 256 ^ k"
  shows "br_unpack k \<lparr>content = pre @ le_bytes k v @ tail, pos = length pre\<rparr>
         = Inr (v, \<lparr>content = pre @ le_bytes k v @ tail, pos = length pre + k\<rparr>)"
  using assms by (simp add: br_unpack_def file_read_def Let_def le_nat_le_bytes)


text \<open>A record whose fields fit their formats and whose tag is not zero.\<close>

definition rec_ok :: "rec \<Rightarrow> bool" where
  "rec_ok r = (case r of (name, tag, ext, v) \<Rightarrow>
      name < 2 ^ 16 \<and> 0 < tag \<and> tag < 2 ^ 8 \<and> ext < 2 ^ 8 \<and> v < 2 ^ 32)"

definition rec_read :: "rec \<Rightarrow> nat \<times> char \<times> char \<times> nat" where
  "rec_read r = (case r of (name, tag, ext, v) \<Rightarrow> (name, char_of tag, char_of ext, v))"

lemma read_record_bytes:
  assumes "rec_ok r"
  shows "read_record \<lparr>content = pre @ record_bytes r @ tail, pos = length pre\<rparr>
         = Inr (rec_read r, \<lparr>content = pre @ record_bytes r @ tail, pos = length pre + 8\<rparr>)"
proof -
  obtain a t x v where r: "r = (a, t, x, v)" by (cases r) auto
  from assms have b: "a < 256 ^ 2" "t < 256 ^ 1" "x < 256 ^ 1" "v < 256 ^ 4"
    by (simp_all add: rec_ok_def r)
  let ?A = "le_bytes 2 a" and ?T = "le_bytes 1 t" and ?X = "le_bytes 1 x" and ?V = "le_bytes 4 v"
  let ?c = "pre @ record_bytes r @ tail"
  have c1: "?c = pre @ ?A @ (?T @ ?X @ ?V @ tail)" by (simp add: record_bytes_def r)
  have c2: "?c = (pre @ ?A) @ ?T @ (?X @ ?V @ tail)" by (simp add: record_bytes_def r)
  have c3: "?c = (pre @ ?A @ ?T) @ ?X @ (?V @ tail)" by (simp add: record_bytes_def r)
  have c4: "?c = (pre @ ?A @ ?T @ ?X) @ ?V @ tail" by (simp add: record_bytes_def r)
  have 1: "br_unpack 2 \<lparr>content = ?c, pos = length pre\<rparr>
           = Inr (a, \<lparr>content = ?c, pos = length pre + 2\<rparr>)"
    unfolding c1 by (rule br_unpack_le_bytes[OF b(1)])
  have 2: "br_unpack 1 \<lparr>content = ?c, pos = length pre + 2\<rparr>
           = Inr (t, \<lparr>content = ?c, pos = length pre + 3\<rparr>)"
    using br_unpack_le_bytes[OF b(2), of "pre @ ?A" "?X @ ?V @ tail"] unfolding c2 by simp
  have 3: "br_unpack 1 \<lparr>content = ?c, pos = length pre + 3\<rparr>
           = Inr (x, \<lparr>content = ?c, pos = length pre + 4\<rparr>)"
    using br_unpack_le_bytes[OF b(3), of "pre @ ?A @ ?T" "?V @ tail"] unfolding c3 by simp
  have 4: "br_unpack 4 \<lparr>content = ?c, pos = length pre + 4\<rparr>
           = Inr (v, \<lparr>content = ?c, pos = length pre + 8\<rparr>)"
    using br_unpack_le_bytes[OF b(4), of "pre @ ?A @ ?T @ ?X" tail] unfolding c4 by simp
  show ?thesis
    unfolding read_record_def
    by (simp only: 1 2 3 4 bind_r_Inr prod.case) (simp add: rec_read_def r)
qed

text \<open>The names of a list of records, as the loop of \<open>read_entries\<close> resolves them,
  with the counters and the prefix at the end.\<close>

fun resolve_all ::
  "(string \<Rightarrow> string option) \<Rightarrow> rec list \<Rightarrow> nat \<Rightarrow> nat \<Rightarrow> string
     \<Rightarrow> error + uentry list \<times> nat \<times> nat \<times> string"
where
  "resolve_all table [] m t d = Inr ([], m, t, d)"
| "resolve_all table (r # rs) m t d =
     bind_r (resolve_entry table (rec_read r) m t d) (\<lambda>(u, m', t', d').
     bind_r (resolve_all table rs m' t' d') (\<lambda>(us, m'', t'', d'').
     Inr (u # us, m'', t'', d'')))"

lemma char_of_eq_0_iff: "n < 256 \<Longrightarrow> (char_of (n::nat) = CHR 0x00) = (n = 0)"
proof -
  assume n: "n < 256"
  have "of_char (char_of n) = n mod 256" by (rule of_char_of)
  with n have 1: "of_char (char_of n) = n" by simp
  show ?thesis
  proof
    assume "char_of n = CHR 0x00"
    then have "of_char (char_of n) = (of_char (CHR 0x00) :: nat)" by simp
    with 1 show "n = 0" by simp
  next
    assume "n = 0"
    then have "n = of_char (CHR 0x00)" by simp
    then show "char_of n = CHR 0x00" by (simp only: char_of_char)
  qed
qed

lemma read_entries_step:
  assumes ok: "rec_ok r"
  shows "read_entries table \<lparr>content = pre @ record_bytes r @ tail, pos = length pre\<rparr> m t d acc
      = (case resolve_entry table (rec_read r) m t d of
               Inl e \<Rightarrow> Inl e
             | Inr (u, m', t', d') \<Rightarrow>
                 read_entries table \<lparr>content = pre @ record_bytes r @ tail, pos = length pre + 8\<rparr>
                   m' t' d' (acc @ [u]))"
proof -
  have nz: "fst (snd (rec_read r)) \<noteq> CHR 0x00"
    using ok by (cases r) (auto simp: rec_read_def rec_ok_def char_of_eq_0_iff)
  show ?thesis
    by (subst read_entries.simps)
       (simp only: read_record_bytes[OF ok] nz sum.case prod.case if_False)
qed

lemma read_entries_records_Inl:
  assumes "list_all rec_ok rs" and "resolve_all table rs m t d = Inl e"
  shows "read_entries table \<lparr>content = pre @ concat (map record_bytes rs) @ tail,
                              pos = length pre\<rparr> m t d acc = Inl e"
  using assms
proof (induction rs arbitrary: pre m t d acc)
  case Nil
  then show ?case by simp
next
  case (Cons r rs)
  from Cons.prems have ok: "rec_ok r" and oks: "list_all rec_ok rs" by simp_all
  have c: "pre @ concat (map record_bytes (r # rs)) @ tail
           = pre @ record_bytes r @ (concat (map record_bytes rs) @ tail)" by simp
  show ?case
  proof (cases "resolve_entry table (rec_read r) m t d")
    case (Inl e')
    with Cons.prems(2) have "e' = e" by (simp add: bind_r_simps)
    with Inl show ?thesis
      unfolding c read_entries_step[OF ok] by simp
  next
    case (Inr res)
    obtain u m' t' d' where res: "res = (u, m', t', d')" by (cases res) auto
    from Cons.prems(2) have "resolve_all table rs m' t' d' = Inl e"
      by (auto simp: Inr res bind_r_def split: sum.splits prod.splits)
    from Cons.IH[OF oks this, of "pre @ record_bytes r" "acc @ [u]"]
    show ?thesis
      unfolding c read_entries_step[OF ok] by (simp add: Inr res)
  qed
qed

lemma read_entries_records_Inr:
  assumes "list_all rec_ok rs" and "resolve_all table rs m t d = Inr (us, m', t', d')"
  shows "read_entries table \<lparr>content = pre @ concat (map record_bytes rs) @ tail,
                              pos = length pre\<rparr> m t d acc
         = read_entries table \<lparr>content = pre @ concat (map record_bytes rs) @ tail,
                                pos = length pre + 8 * length rs\<rparr> m' t' d' (acc @ us)"
  using assms
proof (induction rs arbitrary: pre m t d acc us)
  case Nil
  then show ?case by simp
next
  case (Cons r rs)
  from Cons.prems have ok: "rec_ok r" and oks: "list_all rec_ok rs" by simp_all
  have c: "pre @ concat (map record_bytes (r # rs)) @ tail
           = pre @ record_bytes r @ (concat (map record_bytes rs) @ tail)" by simp
  from Cons.prems(2) obtain u m1 t1 d1 us1
    where hd: "resolve_entry table (rec_read r) m t d = Inr (u, m1, t1, d1)"
      and tl: "resolve_all table rs m1 t1 d1 = Inr (us1, m', t', d')"
      and us: "us = u # us1"
    by (auto simp: bind_r_def split: sum.splits prod.splits)
  from Cons.IH[OF oks tl, of "pre @ record_bytes r" "acc @ [u]"]
  show ?case
    unfolding c read_entries_step[OF ok] by (simp add: hd us add.assoc)
qed


lemma br_unpack_eq:
  assumes "0 < k"
  shows "br_unpack k buf =
           (if pos buf + k \<le> length (content buf)
            then Inr (le_nat (take k (drop (pos buf) (content buf))), buf\<lparr>pos := pos buf + k\<rparr>)
            else Inl StructError)"
  using assms by (auto simp: br_unpack_def file_read_def Let_def min_def)

lemma read_record_short:
  assumes "length (content buf) < pos buf + 8"
  shows "read_record buf = Inl StructError"
  using assms by (simp add: read_record_def br_unpack_eq bind_r_simps)

lemma read_record_mode:
  assumes "pos buf + 8 \<le> length (content buf)"
  shows "\<exists>name ext v. read_record buf
           = Inr ((name, char_of (unat (content buf ! (pos buf + 2))), ext, v),
                  buf\<lparr>pos := pos buf + 8\<rparr>)"
proof -
  have "take (Suc 0) (drop (pos buf + 2) (content buf)) = [content buf ! (pos buf + 2)]"
    using assms by (simp add: take_Suc_conv_app_nth)
  then show ?thesis
    using assms by (simp add: read_record_def br_unpack_eq bind_r_simps le_nat_def)
qed

lemma read_entries_short:
  assumes "length (content buf) < pos buf + 8"
  shows "read_entries table buf m t d acc = Inl StructError"
  by (subst read_entries.simps) (simp add: read_record_short[OF assms])

lemma read_entries_end:
  assumes "pos buf + 8 \<le> length (content buf)" and "content buf ! (pos buf + 2) = 0"
  shows "read_entries table buf m t d acc = Inr (acc, buf\<lparr>pos := pos buf + 8\<rparr>)"
proof -
  have z: "char_of (unat (0 :: byte)) = CHR 0x00" by (simp add: char_of_eq_0_iff)
  from read_record_mode[OF assms(1)] obtain name ext v where
    "read_record buf = Inr ((name, char_of (unat (content buf ! (pos buf + 2))), ext, v),
                  buf\<lparr>pos := pos buf + 8\<rparr>)" by blast
  then have "read_record buf = Inr ((name, CHR 0x00, ext, v), buf\<lparr>pos := pos buf + 8\<rparr>)"
    by (simp only: assms(2) z)
  then show ?thesis
    by (subst read_entries.simps) simp
qed

section \<open>The tag of a .bin entry\<close>

lemma content_file_write_nth:
  assumes "i < length bs"
  shows "content (file_write bs f) ! (pos f + i) = bs ! i"
proof -
  have l: "length (take (pos f) (content f @ replicate (pos f - length (content f)) 0)) = pos f"
    by simp
  from assms have "bs \<noteq> []" by auto
  then have "content (file_write bs f) =
      take (pos f) (content f @ replicate (pos f - length (content f)) 0)
        @ bs @ drop (pos f + length bs) (content f)"
    by (simp add: file_write_def)
  then show ?thesis using assms l
    by (metis nth_append_length_plus nth_append)
qed

lemma record_bytes_tag: "record_bytes (code, tag, x, v) ! 2 = of_nat tag"
proof -
  have "record_bytes (code, tag, x, v) = le_bytes 2 code @ (le_bytes 1 tag @ le_bytes 1 x @ le_bytes 4 v)"
    by (simp add: record_bytes_def)
  moreover have "length (le_bytes 2 code) = 2" by simp
  ultimately have "record_bytes (code, tag, x, v) ! 2 = (le_bytes 1 tag @ le_bytes 1 x @ le_bytes 4 v) ! 0"
    by (metis add.right_neutral nth_append_length_plus)
  then show ?thesis by (simp add: le_bytes_def)
qed

lemma entry_record_bin:
  "entry_record enc (name, ''bin'', sec, fsize) in_cache cache_size = Inr r
     \<Longrightarrow> fst (snd r) = of_char CHR ''s''"
  by (auto simp: entry_record_def bind_r_def Let_def split: sum.splits if_splits)

lemma directive_not_asset:
  assumes "mode \<in> set ''cnrs''"
  shows "cnf_sections (directive mode # ls) sec = cnf_sections ls (Some mode)"
  using assms by (auto simp: directive_def Let_def strip_directive)

lemma cnf_sections_asset:
  assumes "\<not> is_directive (strip l)"
  shows "cnf_sections (l # ls) sec = (strip l, sec) # cnf_sections ls sec"
  using assms by (simp add: is_directive_def Let_def)

text \<open>The mode \<open>write_stage_config\<close> lists an entry under.\<close>

definition listed_mode :: "uentry \<Rightarrow> char" where
  "listed_mode u = (case u of (name, mode, sz) \<Rightarrow> if sublist ''.bin'' name then CHR ''n'' else mode)"

definition plain_name :: "uentry \<Rightarrow> bool" where
  "plain_name u = (\<not> is_directive (strip (fst u)))"

lemma write_stage_config_sections:
  assumes "write_stage_config files sec = Inr out" and "list_all plain_name files"
    and "\<forall>m. sec = Some m \<longrightarrow> m \<in> set ''cnrs''"
  shows "cnf_sections out sec =
           map (\<lambda>u. (strip (fst u), Some (listed_mode u)))
             (filter (\<lambda>u. fst u \<noteq> ''cache_end'') files)"
  using assms
proof (induction files arbitrary: sec out)
  case Nil
  then show ?case by simp
next
  case (Cons u rest)
  obtain name mode sz where u: "u = (name, mode, sz)" by (cases u) auto
  from Cons.prems(2) have pr: "list_all plain_name rest" and "plain_name u" by simp_all
  then have pn: "\<not> is_directive (strip name)" by (simp add: u plain_name_def)
  from Cons.prems(1) have md: "mode \<in> set ''cnrs''"
    by (simp add: u split: if_splits)
  show ?case
  proof (cases "name = ''cache_end''")
    case True
    with Cons.prems(1) md have "write_stage_config rest sec = Inr out"
      by (auto simp: u split: if_splits)
    from Cons.IH[OF this pr Cons.prems(3)] True show ?thesis by (simp add: u)
  next
    case False
    let ?m = "listed_mode u"
    have fu: "fst u = name" by (simp add: u)
    have lm: "?m \<in> set ''cnrs''" using md by (auto simp: listed_mode_def u)
    show ?thesis
    proof (cases "sec = Some ?m")
      case True
      with Cons.prems(1) md False obtain out' where
        r: "write_stage_config rest sec = Inr out'" and o: "out = name # out'"
        by (auto simp: u listed_mode_def Let_def bind_r_def split: sum.splits if_splits)
      from Cons.IH[OF r pr Cons.prems(3)] False True show ?thesis
        by (simp add: fu o cnf_sections_asset[OF pn] del: cnf_sections.simps(2))
    next
      case ne: False
      with Cons.prems(1) md False obtain out' where
        r: "write_stage_config rest (Some ?m) = Inr out'" and o: "out = directive ?m # name # out'"
        by (auto simp: u listed_mode_def Let_def bind_r_def split: sum.splits if_splits)
      have "\<forall>m. Some ?m = Some m \<longrightarrow> m \<in> set ''cnrs''" using lm by simp
      from Cons.IH[OF r pr this] False show ?thesis
        by (simp add: fu o directive_not_asset[OF lm] cnf_sections_asset[OF pn]
            del: cnf_sections.simps(2))
    qed
  qed
qed


text \<open>
  Claim C2, amended. During pack, the record of every entry whose extension is
  \<open>bin\<close> carries the section tag \<open>'s'\<close> (0x73), whatever section the config put
  the entry in. On unpack, \<open>write_stage_config\<close> lists every entry whose name
  contains \<open>.bin\<close> under \<open>.nocache\<close>, whatever its stored tag (no name being a
  directive itself).
\<close>

theorem bin_entry_tag:
  "(pack_entry enc (name, ''bin'', sec, fsize) in_cache cache_size buf = Inr buf'
      \<longrightarrow> content buf' ! (pos buf + 2) = 0x73)
   \<and> (write_stage_config files None = Inr out \<and> list_all plain_name files
        \<and> (nm, mode, sz) \<in> set files \<and> sublist ''.bin'' nm
      \<longrightarrow> (strip nm, Some CHR ''n'') \<in> set (cnf_sections out None))"
proof (intro conjI impI)
  assume a: "pack_entry enc (name, ''bin'', sec, fsize) in_cache cache_size buf = Inr buf'"
  then obtain r where r: "entry_record enc (name, ''bin'', sec, fsize) in_cache cache_size = Inr r"
    and b: "buf' = file_write (record_bytes r) buf"
    by (auto simp: pack_entry_eq bind_r_def split: sum.splits)
  obtain code tag x v where rr: "r = (code, tag, x, v)" by (cases r) auto
  from entry_record_bin[OF r] have t: "tag = of_char CHR ''s''" by (simp add: rr)
  have "content buf' ! (pos buf + 2) = record_bytes r ! 2"
    unfolding b by (rule content_file_write_nth) simp
  then show "content buf' ! (pos buf + 2) = 0x73"
    by (simp add: rr record_bytes_tag t)
next
  assume a: "write_stage_config files None = Inr out \<and> list_all plain_name files
        \<and> (nm, mode, sz) \<in> set files \<and> sublist ''.bin'' nm"
  then have w: "write_stage_config files None = Inr out" and p: "list_all plain_name files"
    and m: "(nm, mode, sz) \<in> set files" and s: "sublist ''.bin'' nm" by simp_all
  have ne: "nm \<noteq> ''cache_end''" using s by (auto simp: sublist_code)
  have "cnf_sections out None =
           map (\<lambda>u. (strip (fst u), Some (listed_mode u)))
             (filter (\<lambda>u. fst u \<noteq> ''cache_end'') files)"
    by (rule write_stage_config_sections[OF w p]) simp
  moreover have "(nm, mode, sz) \<in> set (filter (\<lambda>u. fst u \<noteq> ''cache_end'') files)"
    using m ne by simp
  moreover have "listed_mode (nm, mode, sz) = CHR ''n''" using s by (simp add: listed_mode_def)
  ultimately show "(strip nm, Some CHR ''n'') \<in> set (cnf_sections out None)"
    by force
qed

theorem bin_entry_tag_witness:
  "pack_entry ascii_enc (''d'', ''bin'', CHR ''r'', 1) False 0 \<lparr>content = [], pos = 0\<rparr>
     = Inr \<lparr>content = [100, 0, 115, 98, 1, 0, 0, 0], pos = 8\<rparr>
   \<and> content \<lparr>content = [100, 0, 115, 98, 1, 0, 0, 0], pos = 8\<rparr> ! (0 + 2) = (0x73 :: byte)
   \<and> write_stage_config [(''d.bin'', CHR ''s'', 1)] None = Inr [''.nocache'', ''d.bin'']
   \<and> (strip ''d.bin'', Some CHR ''n'') \<in> set (cnf_sections [''.nocache'', ''d.bin''] None)"
proof -
  have 1: "pack_entry ascii_enc (''d'', ''bin'', CHR ''r'', 1) False 0 \<lparr>content = [], pos = 0\<rparr>
     = Inr \<lparr>content = [100, 0, 115, 98, 1, 0, 0, 0], pos = 8\<rparr>"
    by (simp add: pack_entry_eq entry_record_def bind_r_simps strcode_def ascii_enc_def
        strcode_bytes_def strcode_step_def record_bytes_def le_bytes_def file_write_def Let_def
        upt_rec)
  have 2: "write_stage_config [(''d.bin'', CHR ''s'', 1)] None = Inr [''.nocache'', ''d.bin'']"
    by (simp add: sublist_code directive_def bind_r_simps Let_def)
  have 3: "list_all plain_name [(''d.bin'', CHR ''s'', 1)]"
    by (simp add: plain_name_def is_directive_def strip_def isspace_def)
  have 4: "sublist ''.bin'' ''d.bin''" by (simp add: sublist_code)
  from bin_entry_tag[of ascii_enc "''d''" "CHR ''r''" 1 False 0 "\<lparr>content = [], pos = 0\<rparr>"
      "\<lparr>content = [100, 0, 115, 98, 1, 0, 0, 0], pos = 8\<rparr>" "[(''d.bin'', CHR ''s'', 1)]"
      "[''.nocache'', ''d.bin'']" "''d.bin''" "CHR ''s''" 1] 1 2 3 4
  show ?thesis by simp
qed

text \<open>Claim C2 as stated fails: the entry \<open>d.bin\<close>, in the section NoCache, gets the
  tag 115, the letter s, and not 110, the letter n.\<close>

theorem bin_tag_counterexample:
  "pack_entry ascii_enc (''d'', ''bin'', CHR ''n'', 1) False 0 \<lparr>content = [], pos = 0\<rparr>
     = Inr \<lparr>content = [100, 0, 115, 98, 1, 0, 0, 0], pos = 8\<rparr>"
  by (simp add: pack_entry_eq entry_record_def bind_r_simps strcode_def ascii_enc_def
      strcode_bytes_def strcode_step_def record_bytes_def le_bytes_def file_write_def Let_def
      upt_rec)

section \<open>Cache runs\<close>

definition entry_fsize :: "entry \<Rightarrow> nat" where
  "entry_fsize e = snd (snd (snd e))"

definition entry_ext :: "entry \<Rightarrow> string" where
  "entry_ext e = fst (snd e)"

definition rec_tag :: "rec \<Rightarrow> nat" where
  "rec_tag r = fst (snd r)"

definition rec_value :: "rec \<Rightarrow> nat" where
  "rec_value r = snd (snd (snd r))"

text \<open>The values of the members of a run that starts at \<open>cache_size\<close>.\<close>

fun offsets :: "nat \<Rightarrow> nat list \<Rightarrow> nat list" where
  "offsets cache_size [] = []"
| "offsets cache_size (s # ss) = cache_size # offsets (cache_size + s) ss"

lemma length_offsets [simp]: "length (offsets cs ss) = length ss"
  by (induction ss arbitrary: cs) simp_all

lemma offsets_nth: "j < length ss \<Longrightarrow> offsets cs ss ! j = cs + sum_list (take j ss)"
proof (induction ss arbitrary: cs j)
  case Nil
  then show ?case by simp
next
  case (Cons s ss)
  then show ?case by (cases j) simp_all
qed

lemma entry_record_value:
  "entry_record enc e ic cs = Inr r \<Longrightarrow> rec_value r = (if ic then cs else entry_fsize e)"
  by (cases e)
     (auto simp: entry_record_def bind_r_def Let_def rec_value_def entry_fsize_def
        split: sum.splits if_splits list.splits)

lemma entry_record_tag:
  "entry_record enc e ic cs = Inr r \<Longrightarrow>
     rec_tag r = (if entry_ext e = ''bin'' then of_char CHR ''s'' else of_char (entry_section e))"
  by (cases e)
     (auto simp: entry_record_def bind_r_def Let_def rec_tag_def entry_ext_def entry_section_def
        split: sum.splits if_splits list.splits)

lemma stage_records_no_cache:
  assumes "list_all (\<lambda>e. entry_section e \<noteq> CHR ''c'') pre"
  shows "stage_records enc (pre @ xs) False cs =
           bind_r (stage_records enc pre False cs) (\<lambda>r1.
           bind_r (stage_records enc xs False cs) (\<lambda>r2. Inr (r1 @ r2)))"
  using assms
proof (induction pre)
  case Nil
  show ?case by (simp add: bind_r_def split: sum.splits)
next
  case (Cons e pre)
  then have e: "entry_section e \<noteq> CHR ''c''" and p: "list_all (\<lambda>e. entry_section e \<noteq> CHR ''c'') pre"
    by simp_all
  show ?case
    by (simp add: e Cons.IH[OF p] bind_r_simps Let_def)
qed

lemma length_stage_records_no_cache:
  assumes "list_all (\<lambda>e. entry_section e \<noteq> CHR ''c'') pre"
    and "stage_records enc pre False cs = Inr rs"
  shows "length rs = length pre"
  using assms
proof (induction pre arbitrary: rs)
  case Nil
  then show ?case by simp
next
  case (Cons e pre)
  then have e: "entry_section e \<noteq> CHR ''c''" and p: "list_all (\<lambda>e. entry_section e \<noteq> CHR ''c'') pre"
    by simp_all
  from Cons.prems(2) obtain r rs' where "stage_records enc pre False cs = Inr rs'" "rs = r # rs'"
    by (auto simp: e bind_r_def Let_def split: sum.splits)
  with Cons.IH[OF p] show ?case by simp
qed

text \<open>A run, from its first member to its trailer.\<close>

lemma stage_records_run:
  assumes "run \<noteq> []" and "list_all (\<lambda>e. entry_section e = CHR ''c'') run"
    and "post = [] \<or> entry_section (hd post) \<noteq> CHR ''c''"
    and "stage_records enc (run @ post) ic cs = Inr rs"
  shows "\<exists>rr rp. rs = rr @ (0, of_char CHR ''c'', 0xff, cs + sum_list (map entry_fsize run)) # rp
           \<and> map rec_value rr = offsets cs (map entry_fsize run)
           \<and> map rec_tag rr = map (\<lambda>e. if entry_ext e = ''bin'' then of_char CHR ''s''
                                         else of_char CHR ''c'') run
           \<and> stage_records enc post False (cs + sum_list (map entry_fsize run)) = Inr rp"
  using assms
proof (induction run arbitrary: ic cs rs)
  case Nil
  then show ?case by simp
next
  case (Cons e run)
  from Cons.prems(2) have e: "entry_section e = CHR ''c''"
    and r: "list_all (\<lambda>e. entry_section e = CHR ''c'') run" by simp_all
  have fs: "snd (snd (snd e)) = entry_fsize e" by (simp add: entry_fsize_def)
  show ?case
  proof (cases "run = []")
    case True
    with Cons.prems(3) have last: "run @ post = [] \<or> entry_section (hd (run @ post)) \<noteq> CHR ''c''"
      by auto
    from Cons.prems(4) obtain r0 rp where
      r0: "entry_record enc e True cs = Inr r0"
      and rp: "stage_records enc post False (cs + entry_fsize e) = Inr rp"
      and rs: "rs = r0 # (0, of_char CHR ''c'', 0xff, cs + entry_fsize e) # rp"
      using last True
      by (auto simp: e fs bind_r_def Let_def split: sum.splits if_splits)
    show ?thesis
      using rp rs entry_record_value[OF r0] entry_record_tag[OF r0] True e
      by (intro exI[of _ "[r0]"] exI[of _ rp]) simp
  next
    case False
    with r have nl: "\<not> (run @ post = [] \<or> entry_section (hd (run @ post)) \<noteq> CHR ''c'')"
      by (cases run) auto
    from Cons.prems(4) obtain r0 rs' where
      r0: "entry_record enc e True cs = Inr r0"
      and rs': "stage_records enc (run @ post) True (cs + entry_fsize e) = Inr rs'"
      and rs: "rs = r0 # rs'"
      using nl
      by (auto simp: e fs bind_r_def Let_def split: sum.splits if_splits)
    from Cons.IH[OF False r Cons.prems(3) rs'] obtain rr rp where
      1: "rs' = rr @ (0, of_char CHR ''c'', 0xff, cs + entry_fsize e + sum_list (map entry_fsize run)) # rp"
      and 2: "map rec_value rr = offsets (cs + entry_fsize e) (map entry_fsize run)"
      and 3: "map rec_tag rr = map (\<lambda>e. if entry_ext e = ''bin'' then of_char CHR ''s''
                                         else of_char CHR ''c'') run"
      and 4: "stage_records enc post False (cs + entry_fsize e + sum_list (map entry_fsize run)) = Inr rp"
      by blast
    show ?thesis
      using 1 2 3 4 rs entry_record_value[OF r0] entry_record_tag[OF r0] e
      by (intro exI[of _ "r0 # rr"] exI[of _ rp]) (simp add: add.assoc)
  qed
qed


lemma resolve_entry_shape:
  "case resolve_entry table (name, mode, ext, sz) m t d of
     Inl e \<Rightarrow> True
   | Inr (u, rest) \<Rightarrow> snd u = (mode, sz)"
  unfolding resolve_entry_def prod.case Let_def
  by (simp split: option.split)

lemma resolve_entry_mode:
  assumes "resolve_entry table r m t d = Inr (u, m', t', d')"
  shows "snd u = (fst (snd r), snd (snd (snd r)))"
proof -
  obtain name mode ext sz where r: "r = (name, mode, ext, sz)" by (cases r) auto
  from resolve_entry_shape[where table=table and name=name and mode=mode and ext=ext
      and sz=sz and m=m and t=t and d=d] assms
  show ?thesis by (simp add: r)
qed

lemma resolve_all_modes:
  "resolve_all table rs m t d = Inr (us, m', t', d')
     \<Longrightarrow> map snd us = map (\<lambda>r. (char_of (rec_tag r), rec_value r)) rs"
proof (induction rs arbitrary: m t d us)
  case Nil
  then show ?case by simp
next
  case (Cons r rs)
  from Cons.prems obtain u m1 t1 d1 us1
    where hd: "resolve_entry table (rec_read r) m t d = Inr (u, m1, t1, d1)"
      and tl: "resolve_all table rs m1 t1 d1 = Inr (us1, m', t', d')"
      and us: "us = u # us1"
    by (auto simp: bind_r_def split: sum.splits prod.splits)
  have "snd u = (char_of (rec_tag r), rec_value r)"
    using resolve_entry_mode[OF hd] by (cases r) (simp add: rec_read_def rec_tag_def rec_value_def)
  with Cons.IH[OF tl] us show ?case by simp
qed

lemma char_of_c: "char_of (of_char CHR ''c'' :: nat) = CHR ''c''"
  by (rule char_of_char)

lemma sum_list_take_Suc:
  "j < length (xs :: nat list) \<Longrightarrow> sum_list (take (Suc j) xs) = sum_list (take j xs) + xs ! j"
  by (simp add: take_Suc_conv_app_nth)

text \<open>
  The pack side of a cache run: each member's record holds the sum of the sizes of the
  members before it, 0 for the first, and one trailer record \<open>(0, 'c', 0xFF, total)\<close>
  follows the last member.
\<close>

lemma cache_run_values:
  assumes st: "stage_records enc (pre @ run @ post) False 0 = Inr rs"
    and pre: "list_all (\<lambda>e. entry_section e \<noteq> CHR ''c'') pre"
    and ne: "run \<noteq> []"
    and run: "list_all (\<lambda>e. entry_section e = CHR ''c'') run"
    and post: "post = [] \<or> entry_section (hd post) \<noteq> CHR ''c''"
    and j: "j < length run"
  shows "pack_records enc (pre @ run @ post) False 0 buf
           = Inr (file_write (concat (map record_bytes rs)) buf)
         \<and> rec_value (rs ! (length pre + j)) = sum_list (map entry_fsize (take j run))
         \<and> rs ! (length pre + length run)
            = (0, of_char CHR ''c'', 0xff, sum_list (map entry_fsize run))"
proof -
  let ?sizes = "map entry_fsize run"
  let ?tr = "(0, of_char CHR ''c'', 0xff, sum_list ?sizes) :: rec"
  from st obtain r1 r2 where r1: "stage_records enc pre False 0 = Inr r1"
    and r2: "stage_records enc (run @ post) False 0 = Inr r2" and rs: "rs = r1 @ r2"
    by (auto simp: stage_records_no_cache[OF pre] bind_r_def split: sum.splits)
  have l1: "length r1 = length pre" by (rule length_stage_records_no_cache[OF pre r1])
  from stage_records_run[OF ne run post r2] obtain rr rp where
    r2': "r2 = rr @ ?tr # rp"
    and vals: "map rec_value rr = offsets 0 ?sizes"
    by auto
  have lr: "length rr = length run" using arg_cong[OF vals, of length] by simp
  have A: "pack_records enc (pre @ run @ post) False 0 buf
           = Inr (file_write (concat (map record_bytes rs)) buf)"
    by (simp add: pack_records_eq st bind_r_simps)
  have nthj: "rs ! (length pre + j) = rr ! j"
    using j lr l1 by (simp add: rs r2' nth_append)
  have vj: "rec_value (rr ! j) = sum_list (take j ?sizes)"
    using offsets_nth[of j ?sizes 0] j lr nth_map[of j rr rec_value] vals by simp
  have B: "rec_value (rs ! (length pre + j)) = sum_list (map entry_fsize (take j run))"
    by (simp add: nthj vj take_map)
  have C: "rs ! (length pre + length run) = ?tr"
    using lr l1 by (simp add: rs r2' nth_append)
  from A B C show ?thesis by blast
qed

text \<open>A dictionary for the concrete inputs: the keys are \<open>04x\<close> of the name's
  checksum, a dot and the first letter of the extension.\<close>

definition demo_table :: "string \<Rightarrow> string option" where
  "demo_table =
     map_of [(''0061.t'', ''a.tex''), (''0062.t'', ''b.tex''), (''0063.t'', ''c.tex''),
             (''0062.b'', ''b.bin''), (''0064.b'', ''d.bin''), (''0065.s'', ''e.snd'')]"

text \<open>The run of sizes 10, 20, 30: values 0, 10, 30 and the trailer 60.\<close>

lemma cache_run_example:
  "stage_records ascii_enc
      [(''a'', ''tex'', CHR ''c'', 10), (''b'', ''tex'', CHR ''c'', 20),
       (''c'', ''tex'', CHR ''c'', 30)] False 0
     = Inr [(97, 99, 116, 0), (98, 99, 116, 10), (99, 99, 116, 30), (0, 99, 255, 60)]"
  by (simp add: entry_record_def entry_section_def bind_r_simps strcode_def ascii_enc_def
      strcode_bytes_def strcode_step_def Let_def)

section \<open>A packed stage, part by part\<close>

lemma pack_stage_content:
  assumes pk: "pack_stage enc stage buf = Inr (n, buf')" and al: "2048 dvd pos buf"
  obtains files rs pl h1 h2 where
    "read_config (assets stage) (cnf stage) None [] = Inr files"
    "stage_records enc files False 0 = Inr rs"
    "payload_bytes (assets stage) files
       (pos buf + 4 + 8 * length rs + align_pad 2048 (pos buf + 4 + 8 * length rs)) = Inr pl"
    "struct_pack_h (((4 + length files * 8 + 2047) div 2048) * 2048 div 2048) = Inr h1"
    "struct_pack_h (n div 2048) = Inr h2"
    "n = 4 + 8 * length rs + align_pad 2048 (pos buf + 4 + 8 * length rs) + length pl"
    "content buf' =
       take (pos buf) (content buf @ replicate (pos buf - length (content buf)) 0)
       @ h1 @ h2 @ concat (map record_bytes rs)
       @ replicate (align_pad 2048 (pos buf + 4 + 8 * length rs)) 0
       @ pl @ drop (pos buf + n) (content buf)"
    "pos buf' = pos buf + n"
proof -
  from pk obtain bs where lay: "stage_layout enc stage (pos buf) = Inr bs"
    and n: "n = length bs" and b: "buf' = file_write bs buf"
    by (auto simp: pack_stage_eq[OF al] bind_r_def split: sum.splits)
  from lay obtain files where f: "read_config (assets stage) (cnf stage) None [] = Inr files"
    by (auto simp: stage_layout_def bind_r_def split: sum.splits)
  from lay f obtain rs where r: "stage_records enc files False 0 = Inr rs"
    by (auto simp: stage_layout_def bind_r_def split: sum.splits)
  let ?pad = "align_pad 2048 (pos buf + 4 + 8 * length rs)"
  from lay f r obtain pl where
    p: "payload_bytes (assets stage) files (pos buf + 4 + 8 * length rs + ?pad) = Inr pl"
    by (auto simp: stage_layout_def bind_r_def Let_def length_concat_records add.assoc
        split: sum.splits)
  from lay f r p obtain h1 where
    h1: "struct_pack_h (((4 + length files * 8 + 2047) div 2048) * 2048 div 2048) = Inr h1"
    by (auto simp: stage_layout_def bind_r_def Let_def length_concat_records add.assoc
        split: sum.splits)
  from lay f r p h1 obtain h2 where
    h2: "struct_pack_h ((4 + (8 * length rs + ?pad) + length pl) div 2048) = Inr h2"
    and bs: "bs = h1 @ h2 @ (concat (map record_bytes rs) @ replicate ?pad 0) @ pl"
    by (auto simp: stage_layout_def bind_r_def Let_def length_concat_records add.assoc
        split: sum.splits)
  have ln: "n = 4 + 8 * length rs + ?pad + length pl"
    using n bs length_struct_pack_h[OF h1] length_struct_pack_h[OF h2]
    by (simp add: length_concat_records)
  have ne: "bs \<noteq> []" using length_struct_pack_h[OF h1] bs by auto
  have c: "content buf' =
       take (pos buf) (content buf @ replicate (pos buf - length (content buf)) 0)
       @ h1 @ h2 @ concat (map record_bytes rs) @ replicate ?pad 0
       @ pl @ drop (pos buf + n) (content buf)"
  proof -
    have "content (file_write bs buf) =
        take (pos buf) (content buf @ replicate (pos buf - length (content buf)) 0)
        @ bs @ drop (pos buf + length bs) (content buf)"
      using ne by (simp add: file_write_def)
    then show ?thesis by (simp add: b n bs)
  qed
  have q: "pos buf' = pos buf + n" by (simp add: b pos_file_write n)
  from h2 ln have h2': "struct_pack_h (n div 2048) = Inr h2" by (simp add: add.assoc)
  from that[OF f r p h1 h2' ln c q] show ?thesis .
qed


definition valid_section :: "char \<Rightarrow> bool" where
  "valid_section c = (c \<in> set ''cnrs'')"

lemma read_config_valid:
  assumes "read_config fs lines sec files = Inr out"
    and "list_all (\<lambda>e. valid_section (entry_section e)) files"
    and "\<forall>m. sec = Some m \<longrightarrow> valid_section m"
  shows "list_all (\<lambda>e. valid_section (entry_section e)) out"
  using assms
proof (induction lines arbitrary: sec files)
  case Nil
  then show ?case by simp
next
  case (Cons l ls)
  consider (r) "strip l = ''.resident''" | (n) "strip l = ''.nocache''"
    | (c) "strip l = ''.cache''" | (s) "strip l = ''.sound''" | (f) "\<not> is_directive (strip l)"
    unfolding is_directive_def by blast
  then show ?case
  proof cases
    case r
    from Cons.prems(1) have "read_config fs ls (Some CHR ''r'') files = Inr out"
      by (simp add: r Let_def split: if_splits)
    from Cons.IH[OF this Cons.prems(2)] show ?thesis by (simp add: valid_section_def)
  next
    case n
    from Cons.prems(1) have "read_config fs ls (Some CHR ''n'') files = Inr out"
      by (simp add: n Let_def split: if_splits)
    from Cons.IH[OF this Cons.prems(2)] show ?thesis by (simp add: valid_section_def)
  next
    case c
    from Cons.prems(1) have "read_config fs ls (Some CHR ''c'') files = Inr out"
      by (simp add: c Let_def split: if_splits)
    from Cons.IH[OF this Cons.prems(2)] show ?thesis by (simp add: valid_section_def)
  next
    case s
    from Cons.prems(1) have "read_config fs ls (Some CHR ''s'') files = Inr out"
      by (simp add: s Let_def split: if_splits)
    from Cons.IH[OF this Cons.prems(2)] show ?thesis by (simp add: valid_section_def)
  next
    case f
    then have nd: "strip l \<noteq> ''.resident''" "strip l \<noteq> ''.nocache''"
      "strip l \<noteq> ''.cache''" "strip l \<noteq> ''.sound''"
      by (simp_all add: is_directive_def)
    from Cons.prems(1) have "\<exists>m name ext k. sec = Some m
      \<and> read_config fs ls sec (files @ [(name, ext, m, k)]) = Inr out"
      by (fastforce simp: Let_def nd split: option.splits list.splits)
    then obtain m name ext k where m: "sec = Some m"
      and rc: "read_config fs ls sec (files @ [(name, ext, m, k)]) = Inr out"
      by blast
    have "list_all (\<lambda>e. valid_section (entry_section e))
                     (files @ [(name, ext, m, k)])"
      using Cons.prems(2,3) m by (simp add: entry_section_def)
    from Cons.IH[OF rc this Cons.prems(3)] show ?thesis .
  qed
qed

lemma valid_section_tag:
  assumes "valid_section c"
  shows "0 < (of_char c :: nat)"
  using assms by (auto simp: valid_section_def)

lemma entry_record_ok:
  assumes "entry_record enc e ic cs = Inr r" and "valid_section (entry_section e)"
  shows "rec_ok r"
proof -
  obtain name ext sec fsize where e: "e = (name, ext, sec, fsize)" by (cases e) auto
  from assms(2) have v: "0 < (of_char sec :: nat)"
    using valid_section_tag by (simp add: e entry_section_def)
  have c: "\<And>code. strcode enc name = Inr code \<Longrightarrow> code < 65536" by (rule strcode_lt)
  have "case entry_record enc (name, ext, sec, fsize) ic cs of Inl err \<Rightarrow> True | Inr r \<Rightarrow> rec_ok r"
    using v of_char_lt_256[of sec] c
    by (auto simp: entry_record_def bind_r_def Let_def rec_ok_def of_char_lt_256
        split: sum.split list.split)
  with assms(1) show ?thesis by (simp add: e)
qed

lemma stage_records_ok:
  assumes "stage_records enc files ic cs = Inr rs"
    and "list_all (\<lambda>e. valid_section (entry_section e)) files"
  shows "list_all rec_ok rs"
  using assms
proof (induction files arbitrary: ic cs rs)
  case Nil
  then show ?case by simp
next
  case (Cons e rest)
  from Cons.prems(2) have ve: "valid_section (entry_section e)"
    and vr: "list_all (\<lambda>e. valid_section (entry_section e)) rest" by simp_all
  let ?ic = "ic \<or> entry_section e = CHR ''c''"
  let ?cs = "if ?ic then cs + snd (snd (snd e)) else cs"
  from Cons.prems(1) obtain r where r: "entry_record enc e ?ic cs = Inr r"
    by (auto simp: bind_r_def Let_def split: sum.splits)
  have okr: "rec_ok r" by (rule entry_record_ok[OF r ve])
  show ?case
  proof (cases "?ic \<and> (rest = [] \<or> entry_section (hd rest) \<noteq> CHR ''c'')")
    case True
    with Cons.prems(1) r obtain rs' where lt: "?cs < 2 ^ 32"
      and rs': "stage_records enc rest False ?cs = Inr rs'"
      and rs: "rs = r # (0, of_char CHR ''c'', 0xff, ?cs) # rs'"
      by (auto simp: bind_r_def Let_def split: sum.splits if_splits)
    have "rec_ok (0, of_char CHR ''c'', 0xff, ?cs)" using lt by (simp add: rec_ok_def)
    with okr Cons.IH[OF rs' vr] show ?thesis by (simp add: rs)
  next
    case False
    with Cons.prems(1) r obtain rs' where
      rs': "stage_records enc rest ?ic ?cs = Inr rs'" and rs: "rs = r # rs'"
      by (auto simp: bind_r_def Let_def split: sum.splits if_splits)
    with okr Cons.IH[OF rs' vr] show ?thesis by (simp add: rs)
  qed
qed


section \<open>Unpacking a packed stage\<close>

lemma read_entries_packed_aux:
  assumes c: "content b = P @ concat (map record_bytes rs) @ replicate k 0 @ rest"
    and p: "pos b = length P" and ok: "list_all rec_ok rs" and k: "4 \<le> k"
  shows "read_entries table b m t d acc =
           bind_r (resolve_all table rs m t d) (\<lambda>(us, m', t', d').
             if length P + 8 * length rs + 8 \<le> length (content b)
             then Inr (acc @ us, b\<lparr>pos := length P + 8 * length rs + 8\<rparr>)
             else Inl StructError)"
proof -
  let ?c = "P @ concat (map record_bytes rs) @ (replicate k 0 @ rest)"
  have b: "b = \<lparr>content = ?c, pos = length P\<rparr>" using c p by simp
  show ?thesis
  proof (cases "resolve_all table rs m t d")
    case (Inl e)
    have "read_entries table \<lparr>content = ?c, pos = length P\<rparr> m t d acc = Inl e"
      by (rule read_entries_records_Inl[OF ok Inl])
    then show ?thesis by (simp add: b[symmetric] Inl bind_r_simps)
  next
    case (Inr res)
    obtain us m' t' d' where res: "res = (us, m', t', d')" by (cases res) auto
    let ?b = "\<lparr>content = ?c, pos = length P + 8 * length rs\<rparr>"
    have 1: "read_entries table \<lparr>content = ?c, pos = length P\<rparr> m t d acc
             = read_entries table ?b m' t' d' (acc @ us)"
      by (rule read_entries_records_Inr[OF ok Inr[unfolded res]])
    have z: "content ?b ! (pos ?b + 2) = 0"
    proof -
      have "?c ! (length P + 8 * length rs + 2) = (replicate k 0 @ rest) ! 2"
        using nth_append_length_plus[of "P @ concat (map record_bytes rs)" "replicate k 0 @ rest" 2]
        by (simp add: length_concat_records add.assoc)
      also have "\<dots> = 0" using k by (simp add: nth_append)
      finally show ?thesis by simp
    qed
    show ?thesis
    proof (cases "length P + 8 * length rs + 8 \<le> length (content b)")
      case True
      then have "pos ?b + 8 \<le> length (content ?b)" using c by simp
      from read_entries_end[OF this z, of table m' t' d' "acc @ us"] 1 True
      show ?thesis
        by (simp add: b[symmetric] Inr res bind_r_simps) (simp add: b)
    next
      case False
      then have "length (content ?b) < pos ?b + 8" using c by simp
      from read_entries_short[OF this, of table m' t' d' "acc @ us"] 1 False
      show ?thesis
        by (simp add: b[symmetric] Inr res bind_r_simps)
    qed
  qed
qed

lemma read_entries_packed:
  assumes c: "content b = P @ concat (map record_bytes rs) @ replicate k 0 @ rest"
    and p: "pos b = q" and q: "length P = q" and ok: "list_all rec_ok rs" and k: "4 \<le> k"
  shows "read_entries table b m t d [] =
           bind_r (resolve_all table rs m t d) (\<lambda>(us, m', t', d').
             if q + 8 * length rs + 8 \<le> length (content b)
             then Inr (us, b\<lparr>pos := q + 8 * length rs + 8\<rparr>)
             else Inl StructError)"
proof -
  have pq: "pos b = length P" using p q by simp
  show ?thesis
    unfolding q[symmetric]
    using read_entries_packed_aux[OF c pq ok k, of table m t d "[]"]
    unfolding append_Nil .
qed

lemma sint_of_nat_small:
  assumes "v < 2 ^ 15"
  shows "sint (of_nat v :: 16 word) = int v"
proof -
  have u: "uint (of_nat v :: 16 word) = int v"
    using assms by (simp add: uint_nat unat_of_nat take_bit_nat_eq_self)
  have "sint (of_nat v :: 16 word) = signed_take_bit 15 (uint (of_nat v :: 16 word))"
    by (simp add: sint_uint)
  also have "\<dots> = int v"
    unfolding u using assms by (intro signed_take_bit_int_eq_self) simp_all
  finally show ?thesis .
qed

lemma br_unpack_h_packed:
  assumes h: "struct_pack_h v = Inr raw"
    and c: "content b = P @ raw @ rest" and p: "pos b = length P"
  shows "br_unpack_h b = Inr (int v, b\<lparr>pos := length P + 2\<rparr>)"
proof -
  from h have v: "v < 2 ^ 15" and raw: "raw = le_bytes 2 v"
    by (auto simp: struct_pack_h_def split: if_splits)
  have b: "b = \<lparr>content = P @ le_bytes 2 v @ rest, pos = length P\<rparr>" using c p raw by simp
  have "v < 256 ^ 2" using v by simp
  from br_unpack_le_bytes[OF this, of P rest]
  show ?thesis
    by (simp add: br_unpack_h_def b bind_r_simps sint_of_nat_small[OF v])
qed


lemma unpack_stage_packed:
  assumes pk: "pack_stage enc stage buf = Inr (n, buf')" and al: "2048 dvd pos buf"
    and f: "read_config (assets stage) (cnf stage) None [] = Inr files"
    and r: "stage_records enc files False 0 = Inr rs"
  shows "unpack_stage table (file_seek (pos buf) buf') =
      bind_r (resolve_all table rs 1 1 ''stg'') (\<lambda>(us, m', t', d').
        if pos buf + 4 + 8 * length rs + 8 \<le> length (content buf') then
          bind_r (write_stage_config us None) (\<lambda>config.
          bind_r (extract_files us
                    \<lparr>content = content buf',
                       pos = pos buf + ((4 + length files * 8 + 2047) div 2048) * 2048\<rparr>)
            (\<lambda>(written, b). Inr (config, written, b)))
        else Inl StructError)"
proof (rule pack_stage_content[OF pk al])
  fix files' rs' pl h1 h2
  assume f': "read_config (assets stage) (cnf stage) None [] = Inr files'"
    and r': "stage_records enc files' False 0 = Inr rs'"
    and "payload_bytes (assets stage) files'
       (pos buf + 4 + 8 * length rs' + align_pad 2048 (pos buf + 4 + 8 * length rs')) = Inr pl"
    and h1: "struct_pack_h (((4 + length files' * 8 + 2047) div 2048) * 2048 div 2048) = Inr h1"
    and h2: "struct_pack_h (n div 2048) = Inr h2"
    and "n = 4 + 8 * length rs' + align_pad 2048 (pos buf + 4 + 8 * length rs') + length pl"
    and c: "content buf' =
       take (pos buf) (content buf @ replicate (pos buf - length (content buf)) 0)
       @ h1 @ h2 @ concat (map record_bytes rs')
       @ replicate (align_pad 2048 (pos buf + 4 + 8 * length rs')) 0
       @ pl @ drop (pos buf + n) (content buf)"
    and "pos buf' = pos buf + n"
  from f f' have ff: "files' = files" by simp
  from r r' ff have rr: "rs' = rs" by simp
  define P where "P = take (pos buf) (content buf @ replicate (pos buf - length (content buf)) 0)"
  define k where "k = align_pad 2048 (pos buf + 4 + 8 * length rs)"
  define T where "T = pl @ drop (pos buf + n) (content buf)"
  define H where "H = (4 + length files * 8 + 2047) div 2048"
  define C where "C = content buf'"
  have lP: "length P = pos buf" by (simp add: P_def)
  have l1: "length h1 = 2" by (rule length_struct_pack_h[OF h1])
  have l2: "length h2 = 2" by (rule length_struct_pack_h[OF h2])
  have h1': "struct_pack_h H = Inr h1" using h1 by (simp add: ff H_def)
  have C: "C = P @ h1 @ h2 @ concat (map record_bytes rs) @ replicate k 0 @ T"
    by (simp add: C_def c rr P_def k_def T_def)
  define b0 where "b0 = file_seek (pos buf) buf'"
  define b1 where "b1 = b0\<lparr>pos := length P + 2\<rparr>"
  define b2 where "b2 = b1\<lparr>pos := length (P @ h1) + 2\<rparr>"
  define b3 where "b3 = b2\<lparr>pos := pos buf + 4 + 8 * length rs + 8\<rparr>"
  have cb: "content b0 = C" "content b1 = C" "content b2 = C" "content b3 = C"
    by (simp_all add: b0_def b1_def b2_def b3_def file_seek_def C_def)
  have pb: "pos b0 = length P" "pos b1 = length (P @ h1)" "pos b2 = pos buf + 4"
    using lP l1 by (simp_all add: b0_def b1_def b2_def file_seek_def)
  have c0: "content b0 = P @ h1 @ (h2 @ concat (map record_bytes rs) @ replicate k 0 @ T)"
    by (simp add: cb C)
  have c1: "content b1 = (P @ h1) @ h2 @ (concat (map record_bytes rs) @ replicate k 0 @ T)"
    by (simp add: cb C)
  have c2: "content b2 = (P @ h1 @ h2) @ concat (map record_bytes rs) @ replicate k 0 @ T"
    by (simp add: cb C)
  have u1: "br_unpack_h b0 = Inr (int H, b1)"
    unfolding b1_def by (rule br_unpack_h_packed[OF h1' c0 pb(1)])
  have u2: "br_unpack_h b1 = Inr (int (n div 2048), b2)"
    unfolding b2_def by (rule br_unpack_h_packed[OF h2 c1 pb(2)])
  have ok: "list_all rec_ok rs"
    by (rule stage_records_ok[OF r read_config_valid[OF f]]) simp_all
  have k4: "4 \<le> k" unfolding k_def by (rule align_pad_header[OF al])
  have l4: "length (P @ h1 @ h2) = pos buf + 4" using lP l1 l2 by simp
  have u3: "read_entries table b2 1 1 ''stg'' [] =
           bind_r (resolve_all table rs 1 1 ''stg'') (\<lambda>(us, m', t', d').
             if pos buf + 4 + 8 * length rs + 8 \<le> length C
             then Inr (us, b3)
             else Inl StructError)"
    using read_entries_packed[OF c2 pb(3) l4 ok k4, of table 1 1 "''stg''"]
    unfolding cb b3_def .
  have sk: "br_seek (int (pos b0) + int H * 2048) b3
            = Inr \<lparr>content = C, pos = pos buf + H * 2048\<rparr>"
  proof -
    have e: "int (pos b0) + int H * 2048 = int (pos buf + H * 2048)" using pb(1) lP by simp
    have "br_seek (int (pos buf + H * 2048)) b3 = Inr (file_seek (pos buf + H * 2048) b3)"
      by (simp only: br_seek_def of_nat_less_0_iff if_False nat_int)
    then have "br_seek (int (pos b0) + int H * 2048) b3 = Inr (file_seek (pos buf + H * 2048) b3)"
      by (simp only: e)
    then show ?thesis using cb(4) by (simp add: file_seek_def)
  qed
  have goal: "unpack_stage table b0 =
      bind_r (resolve_all table rs 1 1 ''stg'') (\<lambda>(us, m', t', d').
        if pos buf + 4 + 8 * length rs + 8 \<le> length C then
          bind_r (write_stage_config us None) (\<lambda>config.
          bind_r (extract_files us \<lparr>content = C, pos = pos buf + H * 2048\<rparr>)
            (\<lambda>(written, b). Inr (config, written, b)))
        else Inl StructError)"
  proof (cases "resolve_all table rs 1 1 ''stg''")
    case (Inl e)
    show ?thesis
      unfolding unpack_stage_def Let_def
      by (simp only: u1 u2 u3 Inl bind_r_Inr bind_r_Inl prod.case)
  next
    case (Inr res)
    obtain us m' t' d' where res: "res = (us, m', t', d')" by (cases res) auto
    show ?thesis
    proof (cases "pos buf + 4 + 8 * length rs + 8 \<le> length C")
      case True
      show ?thesis
        unfolding unpack_stage_def Let_def
        by (simp only: u1 u2 u3 Inr res bind_r_Inr bind_r_Inl prod.case True if_True sk)
    next
      case False
      show ?thesis
        unfolding unpack_stage_def Let_def
        by (simp only: u1 u2 u3 Inr res bind_r_Inr bind_r_Inl prod.case False if_False)
    qed
  qed
  show ?thesis
    using goal unfolding b0_def C_def H_def .
qed


lemma read_entries_stage:
  assumes pk: "pack_stage enc stage buf = Inr (n, buf')" and al: "2048 dvd pos buf"
    and f: "read_config (assets stage) (cnf stage) None [] = Inr files"
    and r: "stage_records enc files False 0 = Inr rs"
  shows "read_entries table (file_seek (pos buf + 4) buf') m t d [] =
      bind_r (resolve_all table rs m t d) (\<lambda>(us, m', t', d').
        if pos buf + 4 + 8 * length rs + 8 \<le> length (content buf')
        then Inr (us, file_seek (pos buf + 4 + 8 * length rs + 8) buf')
        else Inl StructError)"
proof (rule pack_stage_content[OF pk al])
  fix files' rs' pl h1 h2
  assume f': "read_config (assets stage) (cnf stage) None [] = Inr files'"
    and r': "stage_records enc files' False 0 = Inr rs'"
    and "payload_bytes (assets stage) files'
       (pos buf + 4 + 8 * length rs' + align_pad 2048 (pos buf + 4 + 8 * length rs')) = Inr pl"
    and h1: "struct_pack_h (((4 + length files' * 8 + 2047) div 2048) * 2048 div 2048) = Inr h1"
    and h2: "struct_pack_h (n div 2048) = Inr h2"
    and "n = 4 + 8 * length rs' + align_pad 2048 (pos buf + 4 + 8 * length rs') + length pl"
    and c: "content buf' =
       take (pos buf) (content buf @ replicate (pos buf - length (content buf)) 0)
       @ h1 @ h2 @ concat (map record_bytes rs')
       @ replicate (align_pad 2048 (pos buf + 4 + 8 * length rs')) 0
       @ pl @ drop (pos buf + n) (content buf)"
    and "pos buf' = pos buf + n"
  from f f' have ff: "files' = files" by simp
  from r r' ff have rr: "rs' = rs" by simp
  define P where "P = take (pos buf) (content buf @ replicate (pos buf - length (content buf)) 0)"
  define k where "k = align_pad 2048 (pos buf + 4 + 8 * length rs)"
  define T where "T = pl @ drop (pos buf + n) (content buf)"
  define b2 where "b2 = file_seek (pos buf + 4) buf'"
  have lP: "length P = pos buf" by (simp add: P_def)
  have l1: "length h1 = 2" by (rule length_struct_pack_h[OF h1])
  have l2: "length h2 = 2" by (rule length_struct_pack_h[OF h2])
  have c2: "content b2 = (P @ h1 @ h2) @ concat (map record_bytes rs) @ replicate k 0 @ T"
    by (simp add: b2_def file_seek_def c rr P_def k_def T_def)
  have p2: "pos b2 = pos buf + 4" by (simp add: b2_def file_seek_def)
  have cb: "content b2 = content buf'" by (simp add: b2_def file_seek_def)
  have b3: "b2\<lparr>pos := pos buf + 4 + 8 * length rs + 8\<rparr>
            = file_seek (pos buf + 4 + 8 * length rs + 8) buf'"
    by (simp add: b2_def file_seek_def)
  have ok: "list_all rec_ok rs"
    by (rule stage_records_ok[OF r read_config_valid[OF f]]) simp_all
  have k4: "4 \<le> k" unfolding k_def by (rule align_pad_header[OF al])
  have l4: "length (P @ h1 @ h2) = pos buf + 4" using lP l1 l2 by simp
  note x = read_entries_packed[OF c2 p2 l4 ok k4, of table m t d]
  note y = x[unfolded cb b3]
  show ?thesis using y unfolding b2_def .
qed

section \<open>A cache run with a .bin member\<close>

definition bin_run_stage :: stage_dir where
  "bin_run_stage =
     \<lparr>cnf = [''.nocache'', ''.cache'', ''a.tex'', ''b.bin''],
      assets = map_of [(''a.tex'', [1, 2]), (''b.bin'', [3, 4, 5])]\<rparr>"

lemma strip_plain: "strip ''a.tex'' = ''a.tex''" "strip ''b.bin'' = ''b.bin''"
  by (simp_all add: strip_def isspace_def)

lemma bin_run_config: "read_config (assets bin_run_stage) (cnf bin_run_stage) None []
   = Inr [(''a'', ''tex'', CHR ''c'', 2), (''b'', ''bin'', CHR ''c'', 3)]"
  by (simp add: bin_run_stage_def Let_def strip_directive strip_plain)

lemma bin_run_records: "stage_records ascii_enc [(''a'', ''tex'', CHR ''c'', 2), (''b'', ''bin'', CHR ''c'', 3)] False 0
     = Inr [(97, 99, 116, 0), (98, 115, 98, 2), (0, 99, 255, 5)]"
  by (simp add: entry_record_def entry_section_def bind_r_simps strcode_def ascii_enc_def
        strcode_bytes_def strcode_step_def Let_def)

lemma bin_run_record_bytes: "concat (map record_bytes [(97, 99, 116, 0), (98, 115, 98, 2), (0, 99, 255, 5)])
   = [97,0,99,116,0,0,0,0, 98,0,115,98,2,0,0,0, 0,0,99,255,5,0,0,0]"
  by (simp add: record_bytes_def le_bytes_def upt_rec)

lemma bin_run_payload: "payload_bytes (assets bin_run_stage) [(''a'', ''tex'', CHR ''c'', 2), (''b'', ''bin'', CHR ''c'', 3)] 2048
   = Inr ([1,2,3,4,5] @ replicate 2043 0)"
  by (simp add: bin_run_stage_def entry_section_def bind_r_simps Let_def align_pad_def)

lemma bin_run_pad: "align_pad 2048 (0 + 4 + 24) = 2020"
  by (simp add: align_pad_def)

lemma bin_run_layout: "stage_layout ascii_enc bin_run_stage 0
  = Inr ([1,0,2,0] @ [97,0,99,116,0,0,0,0, 98,0,115,98,2,0,0,0, 0,0,99,255,5,0,0,0]
         @ replicate 2020 0 @ [1,2,3,4,5] @ replicate 2043 0)"
proof -
  have l: "length [97,0,99,116,0,0,0,0, 98,0,115,98,2,0,0,0, 0,0,99,255,5,0,0,(0::byte)] = 24"
    by simp
  have p: "0 + 4 + length ([97,0,99,116,0,0,0,0, 98,0,115,98,2,0,0,0, 0,0,99,255,5,0,0,(0::byte)]
             @ replicate 2020 0) = 2048" by simp
  have h1: "struct_pack_h ((4 + length [(''a'', ''tex'', CHR ''c'', 2 :: nat), (''b'', ''bin'', CHR ''c'', 3)] * 8 + 2047) div 2048 * 2048 div 2048)
            = Inr [1, 0]"
    by (simp add: struct_pack_h_def le_bytes_def upt_rec)
  have h2: "struct_pack_h ((4 + length ([97,0,99,116,0,0,0,0, 98,0,115,98,2,0,0,0, 0,0,99,255,5,0,0,(0::byte)]
             @ replicate 2020 0) + length ([1,2,3,4,(5::byte)] @ replicate 2043 0)) div 2048)
            = Inr [2, 0]"
    by (simp add: struct_pack_h_def le_bytes_def upt_rec)
  show ?thesis
    unfolding stage_layout_def
    apply (simp only: bin_run_config bind_r_Inr)
    apply (simp only: bin_run_records bind_r_Inr Let_def bin_run_record_bytes l bin_run_pad)
    apply (simp only: p bin_run_payload bind_r_Inr h1 h2)
    apply simp
    done
qed


definition bin_run_bytes :: "byte list" where
  "bin_run_bytes =
     ([1,0,2,0] @ [97,0,99,116,0,0,0,0, 98,0,115,98,2,0,0,0, 0,0,99,255,5,0,0,0]
       @ replicate 2020 0) @ [1,2,3,4,5] @ replicate 2043 0"

lemma bin_run_packed: "pack_stage ascii_enc bin_run_stage \<lparr>content = [], pos = 0\<rparr>
   = Inr (4096, \<lparr>content = bin_run_bytes, pos = 4096\<rparr>)"
proof -
  have al: "2048 dvd pos \<lparr>content = [], pos = 0\<rparr>" by simp
  show ?thesis
    unfolding pack_stage_eq[OF al]
    by (simp add: bin_run_layout bind_r_simps file_write_def bin_run_bytes_def)
qed

lemma length_bin_run_bytes: "length bin_run_bytes = 4096"
  by (simp add: bin_run_bytes_def)

lemma drop_bin_run_bytes: "drop (2048 + i) bin_run_bytes = drop i ([1,2,3,4,5] @ replicate 2043 0)"
proof -
  have "length ([1,0,2,0] @ [97,0,99,116,0,0,0,0, 98,0,115,98,2,0,0,0, 0,0,99,255,5,0,0,(0::byte)]
       @ replicate 2020 0) = 2048" by simp
  then show ?thesis
    unfolding bin_run_bytes_def by (simp only: drop_append drop_all) simp
qed

lemma bin_run_resolved: "resolve_all demo_table [(97, 99, 116, 0), (98, 115, 98, 2), (0, 99, 255, 5)] 1 1 ''stg''
     = Inr ([(''a.tex'', CHR ''c'', 0), (''b.bin'', CHR ''s'', 2), (''cache_end'', CHR ''c'', 5)],
            1, 1, ''stg'')"
  by code_simp

lemma bin_run_config_written: "write_stage_config [(''a.tex'', CHR ''c'', 0), (''b.bin'', CHR ''s'', 2), (''cache_end'', CHR ''c'', 5)] None
   = Inr [''.cache'', ''a.tex'', ''.nocache'', ''b.bin'']"
  by (simp add: sublist_code directive_def bind_r_simps Let_def)

lemma bin_run_read_a: "br_read 2 \<lparr>content = bin_run_bytes, pos = 2048\<rparr>
   = Inr ([1, 2], \<lparr>content = bin_run_bytes, pos = 2050\<rparr>)"
  using drop_bin_run_bytes[of 0] by (simp add: br_read_def file_read_def Let_def)

lemma bin_run_read_b: "br_read 2 \<lparr>content = bin_run_bytes, pos = 2050\<rparr>
   = Inr ([3, 4], \<lparr>content = bin_run_bytes, pos = 2052\<rparr>)"
  using drop_bin_run_bytes[of 2] by (simp add: br_read_def file_read_def Let_def)

lemma bin_run_align_b: "br_align 2048 \<lparr>content = bin_run_bytes, pos = 2052\<rparr>
   = \<lparr>content = bin_run_bytes, pos = 4096\<rparr>"
proof -
  have "length (take 2044 (drop 2052 bin_run_bytes)) = 2044"
    by (simp add: length_bin_run_bytes)
  then show ?thesis by (simp add: br_align_def file_read_def Let_def)
qed

lemma bin_run_align_end: "br_align 2048 \<lparr>content = bin_run_bytes, pos = 4096\<rparr>
   = \<lparr>content = bin_run_bytes, pos = 4096\<rparr>"
  by (simp add: br_align_def file_read_def Let_def)

lemma bin_run_extracted: "extract_files [(''a.tex'', CHR ''c'', 0), (''b.bin'', CHR ''s'', 2), (''cache_end'', CHR ''c'', 5)]
     \<lparr>content = bin_run_bytes, pos = 2048\<rparr>
   = Inr ([(''a.tex'', [1, 2]), (''b.bin'', [3, 4])], \<lparr>content = bin_run_bytes, pos = 4096\<rparr>)"
proof -
  have s1: "entry_size (''a.tex'', CHR ''c'', 0) [(''b.bin'', CHR ''s'', 2), (''cache_end'', CHR ''c'', 5)]
            = Inr 2" by (simp add: entry_size_def)
  have s2: "entry_size (''b.bin'', CHR ''s'', 2) [(''cache_end'', CHR ''c'', 5)] = Inr 2"
    by (simp add: entry_size_def)
  have n1: "''a.tex'' \<noteq> ''cache_end''" "''b.bin'' \<noteq> ''cache_end''" by simp_all
  have m: "CHR ''c'' \<noteq> CHR ''c'' \<longleftrightarrow> False" "CHR ''s'' \<noteq> CHR ''c'' \<longleftrightarrow> True" by simp_all
  show ?thesis
    apply (simp only: extract_files.simps n1 if_False s1 s2 bind_r_Inr bin_run_read_a bin_run_read_b prod.case Let_def m
        if_True bin_run_align_b bin_run_align_end refl)
    apply (simp add: bin_run_read_b bin_run_align_b bin_run_align_end bind_r_simps)
    done
qed

text \<open>
  Claim C3, at the input where the code departs from it. The stage lists \<open>a.tex\<close>
  (bytes 1, 2) and \<open>b.bin\<close> (bytes 3, 4, 5) under \<open>.cache\<close>. Pack tags the
  record of \<open>b.bin\<close> \<open>'s'\<close> and still stores its offset 2 in the run; unpack
  differences only the records tagged \<open>'c'\<close>, takes the 2 for the size of
  \<open>b.bin\<close> and writes two of its three bytes.
\<close>

theorem cache_run_bin_member:
  "bind_r (pack_stage ascii_enc bin_run_stage \<lparr>content = [], pos = 0\<rparr>) (\<lambda>(n, buf').
   bind_r (unpack_stage demo_table (file_seek 0 buf')) (\<lambda>(config, written, b).
   Inr (config, written)))
   = Inr ([''.cache'', ''a.tex'', ''.nocache'', ''b.bin''],
          [(''a.tex'', [1, 2]), (''b.bin'', [3, 4])])"
proof -
  have al: "2048 dvd pos \<lparr>content = [], pos = 0\<rparr>" by simp
  note u = unpack_stage_packed[OF bin_run_packed al bin_run_config bin_run_records, of demo_table]
  have c8: "0 + 4 + 8 * length [(97, 99, 116, 0), (98, 115, 98, 2), (0 :: nat, 99 :: nat, 255 :: nat, 5 :: nat)] + 8
            \<le> length bin_run_bytes" by (simp add: length_bin_run_bytes)
  have H: "0 + (4 + length [(''a'', ''tex'', CHR ''c'', 2 :: nat), (''b'', ''bin'', CHR ''c'', 3)] * 8 + 2047)
             div 2048 * 2048 = 2048" by simp
  have "unpack_stage demo_table (file_seek 0 \<lparr>content = bin_run_bytes, pos = 4096\<rparr>)
        = Inr ([''.cache'', ''a.tex'', ''.nocache'', ''b.bin''],
               [(''a.tex'', [1, 2]), (''b.bin'', [3, 4])],
               \<lparr>content = bin_run_bytes, pos = 4096\<rparr>)"
    using u
    by (simp only: pyfile.select_convs bin_run_resolved bind_r_Inr prod.case c8 if_True bin_run_config_written H bin_run_extracted)
  then show ?thesis by (simp only: bin_run_packed bind_r_Inr prod.case)
qed

section \<open>A cache entry is never the last record\<close>

lemma resolve_entry_error:
  "resolve_entry table r m t d = Inl e \<Longrightarrow> e \<noteq> IndexError"
  by (cases r) (auto simp: resolve_entry_def Let_def split: if_splits option.splits)


lemma resolve_all_error:
  "resolve_all table rs m t d = Inl e \<Longrightarrow> e \<noteq> IndexError"
proof (induction rs arbitrary: m t d)
  case Nil
  then show ?case by simp
next
  case (Cons r rs)
  show ?case
  proof (cases "resolve_entry table (rec_read r) m t d")
    case (Inl e')
    with Cons.prems have "e' = e" by (simp add: bind_r_simps)
    with resolve_entry_error[OF Inl] show ?thesis by simp
  next
    case (Inr res)
    obtain u m1 t1 d1 where res: "res = (u, m1, t1, d1)" by (cases res) auto
    from Cons.prems have "resolve_all table rs m1 t1 d1 = Inl e"
      by (auto simp: Inr res bind_r_def split: sum.splits prod.splits)
    from Cons.IH[OF this] show ?thesis .
  qed
qed

lemma write_stage_config_error:
  "write_stage_config us sec = Inl e \<Longrightarrow> e = AssertionError"
proof (induction us arbitrary: sec)
  case Nil
  then show ?case by simp
next
  case (Cons u us)
  obtain name mode sz where u: "u = (name, mode, sz)" by (cases u) auto
  from Cons.prems Cons.IH show ?case
    by (auto simp: u Let_def bind_r_def split: if_splits sum.splits)
qed

text \<open>No cache entry but a trailer stands last.\<close>

definition run_closed :: "uentry list \<Rightarrow> bool" where
  "run_closed us =
     (us = [] \<or> fst (snd (last us)) \<noteq> CHR ''c'' \<or> fst (last us) = ''cache_end'')"

lemma run_closed_tl: "run_closed (u # us) \<Longrightarrow> us \<noteq> [] \<Longrightarrow> run_closed us"
  by (simp add: run_closed_def)

lemma entry_size_in_bounds:
  assumes "run_closed us" and "i < length us" and "fst (us ! i) \<noteq> ''cache_end''"
  shows "entry_size (us ! i) (drop (Suc i) us) \<noteq> Inl IndexError"
proof (cases "drop (Suc i) us")
  case Nil
  with assms(2) have i: "Suc i = length us" by simp
  have ne: "us \<noteq> []" using assms(2) by auto
  have "length us - 1 = i" using i by simp
  with last_conv_nth[OF ne] have l: "last us = us ! i" by simp
  from assms(1,2,3) l have "fst (snd (us ! i)) \<noteq> CHR ''c''"
    by (auto simp: run_closed_def)
  then show ?thesis by (cases "us ! i") (simp add: entry_size_def)
next
  case (Cons v vs)
  then show ?thesis
    by (cases "us ! i"; cases v) (simp add: entry_size_def)
qed

lemma extract_files_no_index_error:
  assumes "run_closed us"
  shows "extract_files us b \<noteq> Inl IndexError"
  using assms
proof (induction us arbitrary: b)
  case Nil
  show ?case by simp
next
  case (Cons u us)
  obtain name mode sz where u: "u = (name, mode, sz)" by (cases u) auto
  have ih: "\<And>b'. extract_files us b' \<noteq> Inl IndexError"
  proof (cases "us = []")
    case True
    then show "\<And>b'. extract_files us b' \<noteq> Inl IndexError" by simp
  next
    case False
    from Cons.IH[OF run_closed_tl[OF Cons.prems False]]
    show "\<And>b'. extract_files us b' \<noteq> Inl IndexError" .
  qed
  show ?case
  proof (cases "name = ''cache_end''")
    case True
    then show ?thesis using ih by (simp add: u)
  next
    case False
    have "entry_size (((name, mode, sz) # us) ! 0) (drop (Suc 0) ((name, mode, sz) # us))
            \<noteq> Inl IndexError"
      using entry_size_in_bounds[OF Cons.prems, of 0] False by (simp add: u)
    then have es: "entry_size (name, mode, sz) us \<noteq> Inl IndexError" by simp
    show ?thesis
    proof (cases "entry_size (name, mode, sz) us")
      case (Inl e)
      with es have "e \<noteq> IndexError" by simp
      with Inl False show ?thesis by (simp add: u bind_r_simps)
    next
      case (Inr k)
      show ?thesis
      proof (cases "br_read k b")
        case (Inl e)
        then have "e = ValueError" by (auto simp: br_read_def split: if_splits)
        with Inl Inr False show ?thesis by (simp add: u bind_r_simps)
      next
        case rd: (Inr res)
        obtain bytes b1 where res: "res = (bytes, b1)" by (cases res) auto
        let ?b = "if mode \<noteq> CHR ''c'' then br_align 2048 b1 else b1"
        show ?thesis
        proof (cases "extract_files us ?b")
          case (Inl e)
          with ih[of ?b] have "e \<noteq> IndexError" by simp
          with Inl Inr rd res False show ?thesis by (simp add: u bind_r_simps Let_def)
        next
          case ex: (Inr res2)
          obtain w b2 where "res2 = (w, b2)" by (cases res2) auto
          with ex Inr rd res False show ?thesis by (simp add: u bind_r_simps Let_def)
        qed
      qed
    qed
  qed
qed


lemma stage_records_nonempty:
  "stage_records enc (e # rest) ic cs = Inr rs \<Longrightarrow> rs \<noteq> []"
  by (auto simp: bind_r_def Let_def split: sum.splits if_splits)

lemma of_char_eq_c: "((of_char x :: nat) = of_char CHR ''c'') = (x = CHR ''c'')"
  by (rule of_char_eq_iff)

lemma of_char_s_neq_c: "(of_char CHR ''s'' :: nat) \<noteq> of_char CHR ''c''"
  by simp

lemma stage_records_last:
  assumes "stage_records enc files ic cs = Inr rs" and "rs \<noteq> []"
    and "rec_tag (last rs) = of_char CHR ''c''"
  shows "fst (last rs) = 0 \<and> fst (snd (snd (last rs))) = 0xff"
  using assms
proof (induction files arbitrary: ic cs rs)
  case Nil
  then show ?case by simp
next
  case (Cons e rest)
  let ?ic = "ic \<or> entry_section e = CHR ''c''"
  let ?cs = "if ?ic then cs + snd (snd (snd e)) else cs"
  from Cons.prems(1) obtain r where r: "entry_record enc e ?ic cs = Inr r"
    by (auto simp: bind_r_def Let_def split: sum.splits)
  show ?case
  proof (cases "?ic \<and> (rest = [] \<or> entry_section (hd rest) \<noteq> CHR ''c'')")
    case True
    with Cons.prems(1) r obtain rs' where
      rs': "stage_records enc rest False ?cs = Inr rs'"
      and rs: "rs = r # (0, of_char CHR ''c'', 0xff, ?cs) # rs'"
      by (auto simp: bind_r_def Let_def split: sum.splits if_splits)
    show ?thesis
    proof (cases "rs' = []")
      case True
      then show ?thesis by (simp add: rs)
    next
      case False
      with Cons.prems(3) have "rec_tag (last rs') = of_char CHR ''c''" by (simp add: rs)
      from Cons.IH[OF rs' False this] False show ?thesis by (simp add: rs)
    qed
  next
    case False
    with Cons.prems(1) r obtain rs' where
      rs': "stage_records enc rest ?ic ?cs = Inr rs'" and rs: "rs = r # rs'"
      by (auto simp: bind_r_def Let_def split: sum.splits if_splits)
    show ?thesis
    proof (cases rest)
      case Nil
      with rs' have e: "rs = [r]" by (simp add: rs)
      from False Nil have nc: "entry_section e \<noteq> CHR ''c''" by simp
      have "rec_tag r \<noteq> of_char CHR ''c''"
      proof (cases "entry_ext e = ''bin''")
        case True
        with entry_record_tag[OF r] show ?thesis by (simp only: if_True of_char_s_neq_c) simp
      next
        case False
        with entry_record_tag[OF r] have "rec_tag r = of_char (entry_section e)" by simp
        with nc show ?thesis by (simp only: of_char_eq_c) simp
      qed
      with Cons.prems(3) e show ?thesis by simp
    next
      case (Cons e2 rest2)
      with rs' have ne: "rs' \<noteq> []" using stage_records_nonempty by blast
      with Cons.prems(3) have "rec_tag (last rs') = of_char CHR ''c''" by (simp add: rs)
      from Cons.IH[OF rs' ne this] ne show ?thesis by (simp add: rs)
    qed
  qed
qed

lemma resolve_all_last:
  assumes "resolve_all table rs m t d = Inr (us, m', t', d')" and "rs \<noteq> []"
  shows "us \<noteq> [] \<and> (\<exists>m0 t0 d0 x. resolve_entry table (rec_read (last rs)) m0 t0 d0
                                     = Inr (last us, x))"
  using assms
proof (induction rs arbitrary: m t d us)
  case Nil
  then show ?case by simp
next
  case (Cons r rs)
  from Cons.prems(1) obtain u m1 t1 d1 us1
    where hd: "resolve_entry table (rec_read r) m t d = Inr (u, m1, t1, d1)"
      and tl: "resolve_all table rs m1 t1 d1 = Inr (us1, m', t', d')"
      and us: "us = u # us1"
    by (auto simp: bind_r_def split: sum.splits prod.splits)
  show ?case
  proof (cases "rs = []")
    case True
    with tl have "us1 = []" by simp
    moreover have "\<exists>m0 t0 d0 x. resolve_entry table (rec_read r) m0 t0 d0 = Inr (u, x)"
      using hd by blast
    ultimately show ?thesis using True by (simp add: us)
  next
    case False
    from Cons.IH[OF tl False] False show ?thesis by (simp add: us)
  qed
qed

lemma char_of_ff: "char_of (255 :: nat) = CHR 0xFF"
proof -
  have "char_of (of_char (CHR 0xFF) :: nat) = CHR 0xFF" by (rule char_of_char)
  then show ?thesis by simp
qed

lemma resolve_entry_trailer:
  assumes "resolve_entry table (rec_read (0, tag, 0xff, v)) m t d = Inr (u, x)"
  shows "fst u = ''cache_end''"
  using assms
  by (auto simp: resolve_entry_def rec_read_def char_of_ff Let_def split: if_splits)

lemma resolved_run_closed:
  assumes st: "stage_records enc files ic cs = Inr rs" and ok: "list_all rec_ok rs"
    and res: "resolve_all table rs m t d = Inr (us, m', t', d')"
  shows "run_closed us"
proof (cases "rs = []")
  case True
  with res show ?thesis by (simp add: run_closed_def)
next
  case False
  from resolve_all_last[OF res False] obtain m0 t0 d0 x where ne: "us \<noteq> []"
    and l: "resolve_entry table (rec_read (last rs)) m0 t0 d0 = Inr (last us, x)"
    by blast
  obtain code tag ext v where lr: "last rs = (code, tag, ext, v)" by (cases "last rs") auto
  from ok False have "rec_ok (last rs)" by (simp add: list_all_iff)
  then have tg: "tag < 256" by (simp add: lr rec_ok_def)
  obtain m1 t1 d1 where x: "x = (m1, t1, d1)" by (cases x) auto
  have md: "snd (last us) = (char_of tag, v)"
    using resolve_entry_mode[OF l[unfolded x]] by (simp add: lr rec_read_def)
  show ?thesis
  proof (cases "fst (snd (last us)) = CHR ''c''")
    case False
    then show ?thesis by (simp add: run_closed_def)
  next
    case True
    with md have "char_of tag = CHR ''c''" by simp
    then have "of_char (char_of tag) = (of_char CHR ''c'' :: nat)" by simp
    with tg have "tag = of_char CHR ''c''" by (simp add: of_char_of)
    then have "rec_tag (last rs) = of_char CHR ''c''" by (simp add: lr rec_tag_def)
    from stage_records_last[OF st False this] have "code = 0" "ext = 0xff" by (simp_all add: lr)
    with l lr have "fst (last us) = ''cache_end''"
      using resolve_entry_trailer by simp
    then show ?thesis by (simp add: run_closed_def)
  qed
qed


text \<open>
  Claim C10. On a stage that pack wrote, the records unpack parses never end with a cache
  entry that is not the trailer, so for every entry that is not a trailer the read of
  \<open>files[i + 1]\<close> is in bounds: neither the size of any entry, nor the extraction
  loop, nor \<open>unpack_stage\<close> as a whole raises \<open>IndexError\<close>.
\<close>

theorem cache_entry_never_last:
  assumes pk: "pack_stage enc stage buf = Inr (n, buf')" and al: "2048 dvd pos buf"
  shows "unpack_stage table (file_seek (pos buf) buf') \<noteq> Inl IndexError
     \<and> (read_entries table (file_seek (pos buf + 4) buf') 1 1 ''stg'' [] = Inr (us, b) \<longrightarrow>
          (us = [] \<or> fst (snd (last us)) \<noteq> CHR ''c'' \<or> fst (last us) = ''cache_end'')
          \<and> (\<forall>i < length us. fst (us ! i) \<noteq> ''cache_end'' \<longrightarrow>
                 entry_size (us ! i) (drop (Suc i) us) \<noteq> Inl IndexError)
          \<and> extract_files us b2 \<noteq> Inl IndexError)"
proof (rule pack_stage_content[OF pk al])
  fix files rs pl h1 h2
  assume f: "read_config (assets stage) (cnf stage) None [] = Inr files"
    and r: "stage_records enc files False 0 = Inr rs"
  have ok: "list_all rec_ok rs"
    by (rule stage_records_ok[OF r read_config_valid[OF f]]) simp_all
  note u = unpack_stage_packed[OF pk al f r, of table]
  note e = read_entries_stage[OF pk al f r, of table 1 1 "''stg''"]
  have A: "unpack_stage table (file_seek (pos buf) buf') \<noteq> Inl IndexError"
  proof (cases "resolve_all table rs 1 1 ''stg''")
    case (Inl err)
    have "unpack_stage table (file_seek (pos buf) buf') = Inl err"
      unfolding u by (simp only: Inl bind_r_Inl)
    with resolve_all_error[OF Inl] show ?thesis by simp
  next
    case (Inr res)
    obtain us' m' t' d' where res: "res = (us', m', t', d')" by (cases res) auto
    have cl: "run_closed us'" by (rule resolved_run_closed[OF r ok Inr[unfolded res]])
    let ?B = "\<lparr>content = content buf',
               pos = pos buf + ((4 + length files * 8 + 2047) div 2048) * 2048\<rparr>"
    have u: "unpack_stage table (file_seek (pos buf) buf') =
        (if pos buf + 4 + 8 * length rs + 8 \<le> length (content buf') then
          bind_r (write_stage_config us' None) (\<lambda>config.
          bind_r (extract_files us' ?B) (\<lambda>(written, b). Inr (config, written, b)))
        else Inl StructError)"
      unfolding u by (simp only: Inr res bind_r_Inr prod.case)
    show ?thesis
    proof (cases "pos buf + 4 + 8 * length rs + 8 \<le> length (content buf')")
      case False
      then show ?thesis unfolding u by simp
    next
      case True
      show ?thesis
      proof (cases "write_stage_config us' None")
        case (Inl err)
        with write_stage_config_error[OF Inl] True show ?thesis
          unfolding u by (simp add: bind_r_simps)
      next
        case cf: (Inr config)
        show ?thesis
        proof (cases "extract_files us' ?B")
          case (Inl err)
          with extract_files_no_index_error[OF cl, of ?B] have "err \<noteq> IndexError" by simp
          with Inl cf True show ?thesis
            unfolding u by (simp add: bind_r_simps)
        next
          case ex: (Inr out)
          obtain w b3 where "out = (w, b3)" by (cases out) auto
          with ex cf True show ?thesis
            unfolding u by (simp add: bind_r_simps)
        qed
      qed
    qed
  qed
  have B: "(us = [] \<or> fst (snd (last us)) \<noteq> CHR ''c'' \<or> fst (last us) = ''cache_end'')
          \<and> (\<forall>i < length us. fst (us ! i) \<noteq> ''cache_end'' \<longrightarrow>
                 entry_size (us ! i) (drop (Suc i) us) \<noteq> Inl IndexError)
          \<and> extract_files us b2 \<noteq> Inl IndexError"
    if rd: "read_entries table (file_seek (pos buf + 4) buf') 1 1 ''stg'' [] = Inr (us, b)"
  proof -
    from rd obtain m' t' d' where res: "resolve_all table rs 1 1 ''stg'' = Inr (us, m', t', d')"
      unfolding e by (auto simp: bind_r_def split: sum.splits prod.splits if_splits)
    have cl: "run_closed us" by (rule resolved_run_closed[OF r ok res])
    from cl entry_size_in_bounds[OF cl] extract_files_no_index_error[OF cl, of b2]
    show ?thesis by (simp add: run_closed_def)
  qed
  from A B show ?thesis by blast
qed

theorem cache_entry_never_last_witness:
  "pack_stage ascii_enc bin_run_stage \<lparr>content = [], pos = 0\<rparr>
     = Inr (4096, \<lparr>content = bin_run_bytes, pos = 4096\<rparr>)
   \<and> 2048 dvd pos \<lparr>content = [], pos = 0\<rparr>
   \<and> unpack_stage demo_table (file_seek 0 \<lparr>content = bin_run_bytes, pos = 4096\<rparr>)
       \<noteq> Inl IndexError"
proof -
  have al: "2048 dvd pos \<lparr>content = [], pos = 0\<rparr>" by simp
  from cache_entry_never_last[OF bin_run_packed al, of demo_table]
  have "unpack_stage demo_table (file_seek 0 \<lparr>content = bin_run_bytes, pos = 4096\<rparr>)
       \<noteq> Inl IndexError" by simp
  with bin_run_packed al show ?thesis by simp
qed

end
